theory Spec2Isabelle
  imports Complex_Main
begin

section \<open>AlphaGomoku: the Monte Carlo tree search of utility/mcts.py\<close>

text \<open>
  The development embeds \<^verbatim>\<open>src/utility/mcts.py\<close>: the classes \<^verbatim>\<open>MCTS\<close> and
  \<^verbatim>\<open>MCTSPlayer\<close>. Conventions of the embedding:
  \<^item> a board (\<^verbatim>\<open>state.tolist()\<close>) is a list of rows of Python integers;
  \<^item> the dictionary key \<^verbatim>\<open>np.array_str(state)\<close> prints every cell of a 15 x 15
    array, so two boards have the same key exactly when they are equal: the board itself
    is the key;
  \<^item> Python floats are real numbers: rounding, infinities and NaN are not modelled;
  \<^item> visit counters are created as 0 or 1 and only ever incremented: they are naturals;
  \<^item> every subscript that can raise is a branch that returns an error;
  \<^item> the recursion of \<^verbatim>\<open>search\<close> is bounded by an explicit budget, the number of
    stack frames the interpreter still allows; running out of it is \<^verbatim>\<open>RecursionError\<close>;
  \<^item> \<^verbatim>\<open>get_reward\<close> and \<^verbatim>\<open>get_valid_actions_1d\<close> of \<^verbatim>\<open>utility/common.py\<close> are
    parameters of every function that calls them.
\<close>

subsection \<open>Boards, errors and the names imported from utility.common\<close>

type_synonym board = "int list list"

datatype error = IndexError | KeyError | ZeroDivisionError | RecursionError

text \<open>
  Modelled from the spec: \<^verbatim>\<open>BOARD_SIZE\<close> and \<^verbatim>\<open>BOARD_WIDTH\<close> are defined in
  \<^verbatim>\<open>utility/common.py\<close>, which is not among the sources. The spec fixes a 15 x 15
  grid with 225 cells, and mcts.py itself writes 225 and the centre (7, 7).
\<close>

definition BOARD_WIDTH :: nat where
  "BOARD_WIDTH = 15"

definition BOARD_SIZE :: nat where
  "BOARD_SIZE = 225"

text \<open>
  Modelled from the spec: \<^verbatim>\<open>index_to_pos\<close> is defined in \<^verbatim>\<open>utility/common.py\<close>,
  which is not among the sources. The spec asks for a fixed bijection between [0, 225)
  and (row, col), row-major; mcts.py pairs index 112 with (7, 7). Python's \<^verbatim>\<open>//\<close> and
  \<^verbatim>\<open>%\<close> round towards minus infinity, as \<open>div\<close> and \<open>mod\<close> on \<open>int\<close> do.
\<close>

definition index_to_pos :: "int \<Rightarrow> int \<times> int" where
  "index_to_pos i = (i div int BOARD_WIDTH, i mod int BOARD_WIDTH)"

type_synonym reward_fn = "board \<Rightarrow> int \<Rightarrow> int"
type_synonym oracle_fn = "board \<Rightarrow> nat \<Rightarrow> int list"
type_synonym predict_fn = "board \<Rightarrow> real list \<times> real"

text \<open>\<^verbatim>\<open>np.count_nonzero\<close> of a two-dimensional array.\<close>

definition count_nonzero :: "board \<Rightarrow> nat" where
  "count_nonzero s = sum_list (map (\<lambda>row. length (filter (\<lambda>n. n \<noteq> 0) row)) s)"

text \<open>
  A subscript of a Python list or a numpy array of length \<open>n\<close>: a negative index counts
  from the end, anything outside \<open>[-n, n)\<close> raises \<^verbatim>\<open>IndexError\<close>.
\<close>

definition py_index :: "nat \<Rightarrow> int \<Rightarrow> nat option" where
  "py_index n i =
     (if 0 \<le> i \<and> i < int n then Some (nat i)
      else if - int n \<le> i \<and> i < 0 then Some (nat (int n + i))
      else None)"

definition lookup :: "('k \<rightharpoonup> 'v) \<Rightarrow> 'k \<Rightarrow> error + 'v" where
  "lookup m k = (case m k of None \<Rightarrow> Inl KeyError | Some v \<Rightarrow> Inr v)"

text \<open>The boards the data model speaks of: 15 rows of 15 cells.\<close>

definition wf_board :: "board \<Rightarrow> bool" where
  "wf_board s \<longleftrightarrow> length s = BOARD_WIDTH \<and> list_all (\<lambda>row. length row = BOARD_WIDTH) s"

definition cells_012 :: "board \<Rightarrow> bool" where
  "cells_012 s \<longleftrightarrow> list_all (list_all (\<lambda>n. n = 0 \<or> n = 1 \<or> n = 2)) s"

subsection \<open>Perspective conversion\<close>

text \<open>
  \<^verbatim>\<open>MCTS.convert_perspective\<close> (on an array) and
  \<^verbatim>\<open>MCTSPlayer.convert_to_p1_perspective\<close> (on a list of lists) are the same
  comprehension: \<^verbatim>\<open>[[n - 1 if n == 2 else n * 2 for n in row] for row in state]\<close>.
\<close>

definition convert_perspective :: "board \<Rightarrow> board" where
  "convert_perspective state = map (map (\<lambda>n. if n = 2 then n - 1 else n * 2)) state"

definition convert_to_p1_perspective :: "board \<Rightarrow> board" where
  "convert_to_p1_perspective state = map (map (\<lambda>n. if n = 2 then n - 1 else n * 2)) state"

subsection \<open>The search object\<close>

text \<open>
  The fields of \<^verbatim>\<open>MCTS.__init__\<close>, in its order. \<open>printed\<close> is the console: the lines
  \<^verbatim>\<open>print\<close> has written so far.
\<close>

record mcts =
  policy_value_obj :: predict_fn
  sa_q :: "board \<times> int \<rightharpoonup> real"
  sa_n :: "board \<times> int \<rightharpoonup> nat"
  s_n :: "board \<rightharpoonup> nat"
  s_p :: "board \<rightharpoonup> real list"
  valid_actions_distance :: nat
  c_puct :: real
  playout_count :: nat
  s_r :: "board \<rightharpoonup> int"
  s_valid_moves :: "board \<rightharpoonup> int list"
  printed :: "string list"

definition EPS :: real where
  "EPS = 1 / 10 ^ 8"

text \<open>\<^verbatim>\<open>RandomPolicyValueClass.predict\<close>: uniform priors and value 0.\<close>

definition RandomPolicyValueClass_predict :: predict_fn where
  "RandomPolicyValueClass_predict state = (replicate 225 (1 / 225), 0)"

definition MCTS_init :: "predict_fn option \<Rightarrow> mcts" where
  "MCTS_init obj =
     \<lparr>policy_value_obj =
        (case obj of None \<Rightarrow> RandomPolicyValueClass_predict | Some p \<Rightarrow> p),
      sa_q = Map.empty, sa_n = Map.empty, s_n = Map.empty, s_p = Map.empty,
      valid_actions_distance = 1, c_puct = 5, playout_count = 400,
      s_r = Map.empty, s_valid_moves = Map.empty, printed = []\<rparr>"

subsection \<open>Leaf expansion\<close>

text \<open>Lines 61 to 83 of \<^verbatim>\<open>search\<close>: the branch \<^verbatim>\<open>if s_str not in self.s_p\<close>.\<close>

definition masked_probs :: "real list \<Rightarrow> int list \<Rightarrow> real list" where
  "masked_probs probs valid_actions =
     (let mask = map (\<lambda>a. if int a \<in> set valid_actions then (1::real) else 0) [0..<BOARD_SIZE]
      in map (\<lambda>i. probs ! i * mask ! i) [0..<BOARD_SIZE])"

definition normalise_probs :: "real list \<Rightarrow> real list" where
  "normalise_probs probs =
     (let probs_sum = sum_list probs in
      if probs_sum = 0 then replicate (length probs) (1 / real (length probs))
      else if probs_sum \<noteq> 1 then map (\<lambda>p. p / probs_sum) probs
      else probs)"

definition expand :: "oracle_fn \<Rightarrow> mcts \<Rightarrow> board \<Rightarrow> error + (real \<times> mcts)" where
  "expand get_valid_actions_1d self s =
     (let (probs, v) = policy_value_obj self s;
          valid_actions = get_valid_actions_1d s (valid_actions_distance self);
          self1 = self\<lparr>s_valid_moves := (s_valid_moves self)(s \<mapsto> valid_actions)\<rparr>
      in if length probs < BOARD_SIZE then Inl IndexError
         else
           let masked = masked_probs probs valid_actions;
               out = (if sum_list masked = 0
                      then printed self1 @ [''warning: all moves masked'']
                      else printed self1)
           in Inr (- v,
                self1\<lparr>s_p := (s_p self1)(s \<mapsto> normalise_probs masked),
                      s_n := (s_n self1)(s \<mapsto> 0),
                      printed := out\<rparr>))"

subsection \<open>Selection\<close>

text \<open>
  Lines 87 to 100. \<^verbatim>\<open>best_node_score\<close> starts at minus infinity, which every real
  score exceeds: it is \<open>None\<close> until the first action has been scored.
\<close>

definition puct_score :: "mcts \<Rightarrow> board \<Rightarrow> int \<Rightarrow> error + real" where
  "puct_score self s a =
     (case lookup (s_p self) s of Inl e \<Rightarrow> Inl e | Inr pv \<Rightarrow>
      case py_index (length pv) a of None \<Rightarrow> Inl IndexError | Some i \<Rightarrow>
      case lookup (s_n self) s of Inl e \<Rightarrow> Inl e | Inr n \<Rightarrow>
      if sa_q self (s, a) \<noteq> None then
        (case lookup (sa_n self) (s, a) of Inl e \<Rightarrow> Inl e | Inr m \<Rightarrow>
         case lookup (sa_q self) (s, a) of Inl e \<Rightarrow> Inl e | Inr q \<Rightarrow>
           Inr (q + c_puct self * (pv ! i) * sqrt (real n) / (1 + real m)))
      else Inr (c_puct self * (pv ! i) * sqrt (real n + EPS)))"

fun select_loop :: "mcts \<Rightarrow> board \<Rightarrow> int list \<Rightarrow> real option \<times> int \<Rightarrow> error + (real option \<times> int)" where
  "select_loop self s [] acc = Inr acc"
| "select_loop self s (a # as) (best_node_score, best_action) =
     (case puct_score self s a of
        Inl e \<Rightarrow> Inl e
      | Inr score \<Rightarrow>
          if (case best_node_score of None \<Rightarrow> True | Some b \<Rightarrow> score > b)
          then select_loop self s as (Some score, a)
          else select_loop self s as (best_node_score, best_action))"

definition select_action :: "mcts \<Rightarrow> board \<Rightarrow> error + int" where
  "select_action self s =
     (case lookup (s_valid_moves self) s of Inl e \<Rightarrow> Inl e | Inr valid \<Rightarrow>
      case select_loop self s valid (None, - 1) of Inl e \<Rightarrow> Inl e | Inr (_, a) \<Rightarrow> Inr a)"

subsection \<open>The child position\<close>

text \<open>
  Lines 102 to 104: flip the board, then \<^verbatim>\<open>next_s[row][col] = 2\<close> on the numpy array.
\<close>

definition set_cell :: "board \<Rightarrow> int \<times> int \<Rightarrow> int \<Rightarrow> error + board" where
  "set_cell s pos v =
     (case py_index (length s) (fst pos) of None \<Rightarrow> Inl IndexError | Some i \<Rightarrow>
      case py_index (length (s ! i)) (snd pos) of None \<Rightarrow> Inl IndexError | Some j \<Rightarrow>
        Inr (s[i := (s ! i)[j := v]]))"

definition next_state :: "board \<Rightarrow> int \<Rightarrow> error + board" where
  "next_state s best_action =
     set_cell (convert_perspective s) (index_to_pos best_action) 2"

subsection \<open>Backup\<close>

text \<open>Lines 108 to 119, run on the object as the recursive call left it.\<close>

definition backup :: "mcts \<Rightarrow> board \<Rightarrow> int \<Rightarrow> real \<Rightarrow> error + (real \<times> mcts)" where
  "backup self s best_action v =
     (case
        (if sa_q self (s, best_action) \<noteq> None then
           (case lookup (sa_n self) (s, best_action) of Inl e \<Rightarrow> Inl e | Inr n \<Rightarrow>
            case lookup (sa_q self) (s, best_action) of Inl e \<Rightarrow> Inl e | Inr q \<Rightarrow>
              Inr (self\<lparr>sa_q := (sa_q self)((s, best_action) \<mapsto> (real n * q + v) / (real n + 1)),
                        sa_n := (sa_n self)((s, best_action) \<mapsto> n + 1)\<rparr>))
         else
           Inr (self\<lparr>sa_q := (sa_q self)((s, best_action) \<mapsto> v),
                     sa_n := (sa_n self)((s, best_action) \<mapsto> 1)\<rparr>))
      of Inl e \<Rightarrow> Inl e
       | Inr self2 \<Rightarrow>
           (case lookup (s_n self2) s of Inl e \<Rightarrow> Inl e | Inr c \<Rightarrow>
              Inr (- v, self2\<lparr>s_n := (s_n self2)(s \<mapsto> c + 1)\<rparr>)))"

subsection \<open>search\<close>

text \<open>Lines 52 and 53: the reward of a position is computed once and kept.\<close>

definition cache_reward :: "reward_fn \<Rightarrow> mcts \<Rightarrow> board \<Rightarrow> mcts" where
  "cache_reward get_reward self s =
     (if s_r self s = None then self\<lparr>s_r := (s_r self)(s \<mapsto> get_reward s 1)\<rparr> else self)"

fun search :: "reward_fn \<Rightarrow> oracle_fn \<Rightarrow> nat \<Rightarrow> mcts \<Rightarrow> board \<Rightarrow> error + (real \<times> mcts)" where
  "search get_reward get_valid_actions_1d 0 self s = Inl RecursionError"
| "search get_reward get_valid_actions_1d (Suc depth) self s =
     (let self0 = cache_reward get_reward self s in
      case lookup (s_r self0) s of Inl e \<Rightarrow> Inl e | Inr r \<Rightarrow>
      if r \<noteq> 0 \<or> count_nonzero s = BOARD_SIZE then Inr (- real_of_int r, self0)
      else if s_p self0 s = None then expand get_valid_actions_1d self0 s
      else
        case select_action self0 s of Inl e \<Rightarrow> Inl e | Inr best_action \<Rightarrow>
        case next_state s best_action of Inl e \<Rightarrow> Inl e | Inr next_s \<Rightarrow>
        case search get_reward get_valid_actions_1d depth self0 next_s of
          Inl e \<Rightarrow> Inl e
        | Inr (v, self1) \<Rightarrow> backup self1 s best_action v)"

subsection \<open>get_probs and choose_action\<close>

fun playouts :: "reward_fn \<Rightarrow> oracle_fn \<Rightarrow> nat \<Rightarrow> nat \<Rightarrow> mcts \<Rightarrow> board \<Rightarrow> error + mcts" where
  "playouts get_reward get_valid_actions_1d depth 0 self s = Inr self"
| "playouts get_reward get_valid_actions_1d depth (Suc k) self s =
     (case search get_reward get_valid_actions_1d depth self s of
        Inl e \<Rightarrow> Inl e
      | Inr (_, self1) \<Rightarrow> playouts get_reward get_valid_actions_1d depth k self1 s)"

definition root_counts :: "mcts \<Rightarrow> board \<Rightarrow> nat list" where
  "root_counts self s =
     map (\<lambda>i. case sa_n self (s, int i) of Some n \<Rightarrow> n | None \<Rightarrow> 0) [0..<BOARD_SIZE]"

definition get_probs :: "reward_fn \<Rightarrow> oracle_fn \<Rightarrow> nat \<Rightarrow> mcts \<Rightarrow> board \<Rightarrow> error + (real list \<times> mcts)" where
  "get_probs get_reward get_valid_actions_1d depth self s =
     (case playouts get_reward get_valid_actions_1d depth (playout_count self) self s of
        Inl e \<Rightarrow> Inl e
      | Inr self1 \<Rightarrow>
          let counts = root_counts self1 s; counts_sum = sum_list counts
          in if counts_sum = 0 then Inl ZeroDivisionError
             else Inr (map (\<lambda>i. real i / real counts_sum) counts, self1))"

record mcts_player =
  player :: mcts
  player_num :: int

definition MCTSPlayer_init :: "int \<Rightarrow> predict_fn option \<Rightarrow> mcts_player" where
  "MCTSPlayer_init num obj = \<lparr>player = MCTS_init obj, player_num = num\<rparr>"

text \<open>\<^verbatim>\<open>probs.index(max(probs))\<close>: the first position of the greatest entry.\<close>

fun index_of_max :: "real list \<Rightarrow> nat" where
  "index_of_max [] = 0"
| "index_of_max [x] = 0"
| "index_of_max (x # y # ys) =
     (let j = index_of_max (y # ys) in if (y # ys) ! j > x then Suc j else 0)"

definition choose_action ::
  "reward_fn \<Rightarrow> oracle_fn \<Rightarrow> nat \<Rightarrow> mcts_player \<Rightarrow> board \<Rightarrow> error + ((int \<times> int) \<times> mcts_player)" where
  "choose_action get_reward get_valid_actions_1d depth self state0 =
     (let state = (if player_num self = 2 then convert_to_p1_perspective state0 else state0)
      in if count_nonzero state = 0 then Inr ((7, 7), self)
         else
           case get_probs get_reward get_valid_actions_1d depth (player self) state of
             Inl e \<Rightarrow> Inl e
           | Inr (probs, p1) \<Rightarrow>
               Inr (index_to_pos (int (index_of_max probs)), self\<lparr>player := p1\<rparr>))"

section \<open>Notions used in the statements\<close>

subsection \<open>Cells, terminal positions and the visit total\<close>

text \<open>The cell of a board that an action index names, under \<open>index_to_pos\<close>.\<close>

definition cell :: "board \<Rightarrow> int \<Rightarrow> int" where
  "cell s a = s ! nat (fst (index_to_pos a)) ! nat (snd (index_to_pos a))"

text \<open>
  The reward \<^verbatim>\<open>self.s_r[s_str]\<close> holds after lines 52 and 53, and the test of line 56.
\<close>

definition cached_reward :: "reward_fn \<Rightarrow> mcts \<Rightarrow> board \<Rightarrow> int" where
  "cached_reward R self s = (case s_r self s of None \<Rightarrow> R s 1 | Some r \<Rightarrow> r)"

definition is_terminal :: "reward_fn \<Rightarrow> mcts \<Rightarrow> board \<Rightarrow> bool" where
  "is_terminal R self s \<longleftrightarrow> cached_reward R self s \<noteq> 0 \<or> count_nonzero s = BOARD_SIZE"

text \<open>
  Lines 122 to 129 of \<^verbatim>\<open>get_probs\<close>: the playouts, then \<^verbatim>\<open>counts_sum\<close>, the sum of
  the root's edge visit counts over the 225 actions.
\<close>

definition count_root_visits :: "reward_fn \<Rightarrow> oracle_fn \<Rightarrow> nat \<Rightarrow> mcts \<Rightarrow> board \<Rightarrow> error + nat" where
  "count_root_visits R V depth self s =
     (case playouts R V depth (playout_count self) self s of
        Inl e \<Rightarrow> Inl e
      | Inr self1 \<Rightarrow> Inr (sum_list (root_counts self1 s)))"

subsection \<open>What the collaborators and the object are assumed to satisfy\<close>

text \<open>
  The legal-move oracle, on every well-formed position that has at least \<open>n0\<close> stones
  and an empty cell: it returns at least one action, and only indices of empty cells.
\<close>

definition oracle_ok :: "oracle_fn \<Rightarrow> nat \<Rightarrow> nat \<Rightarrow> bool" where
  "oracle_ok get_valid_actions_1d d n0 \<longleftrightarrow>
     (\<forall>s. wf_board s \<and> n0 \<le> count_nonzero s \<and> count_nonzero s < BOARD_SIZE \<longrightarrow>
        get_valid_actions_1d s d \<noteq> [] \<and>
        (\<forall>a \<in> set (get_valid_actions_1d s d). 0 \<le> a \<and> a < 225 \<and> cell s a = 0))"

text \<open>The evaluator returns at least 225 priors.\<close>

definition predict_ok :: "predict_fn \<Rightarrow> bool" where
  "predict_ok p \<longleftrightarrow> (\<forall>s. BOARD_SIZE \<le> length (fst (p s)))"

text \<open>
  The shape every object built by \<^verbatim>\<open>search\<close> has: stored legal actions are indices of
  empty cells, prior vectors have 225 entries, and the tables that are written together
  have the same keys.
\<close>

definition store_ok :: "mcts \<Rightarrow> bool" where
  "store_ok self \<longleftrightarrow>
     (\<forall>s vs. s_valid_moves self s = Some vs \<longrightarrow>
        vs \<noteq> [] \<and> (\<forall>a \<in> set vs. 0 \<le> a \<and> a < 225 \<and> cell s a = 0)) \<and>
     (\<forall>s pv. s_p self s = Some pv \<longrightarrow> length pv = 225) \<and>
     dom (s_valid_moves self) = dom (s_p self) \<and>
     dom (s_n self) = dom (s_p self) \<and>
     dom (sa_n self) = dom (sa_q self)"

text \<open>
  The part of that shape that needs no assumption on the oracle, with the constant that
  \<^verbatim>\<open>__init__\<close> gives \<open>c_puct\<close>.
\<close>

definition tables_ok :: "mcts \<Rightarrow> bool" where
  "tables_ok self \<longleftrightarrow>
     dom (sa_n self) = dom (sa_q self) \<and>
     dom (s_n self) = dom (s_p self) \<and>
     dom (s_valid_moves self) = dom (s_p self) \<and>
     (\<forall>s pv. s_p self s = Some pv \<longrightarrow> length pv = 225) \<and>
     c_puct self = 5"

text \<open>
  What a call of \<^verbatim>\<open>search\<close> on a position with \<open>n\<close> stones leaves alone: the
  configuration, every entry that exists already in \<open>s_p\<close>, \<open>s_valid_moves\<close> and
  \<open>s_r\<close>, and every entry of a position with fewer than \<open>n\<close> stones.
\<close>

definition same_below :: "nat \<Rightarrow> mcts \<Rightarrow> mcts \<Rightarrow> bool" where
  "same_below n self self' \<longleftrightarrow>
     policy_value_obj self' = policy_value_obj self \<and>
     valid_actions_distance self' = valid_actions_distance self \<and>
     c_puct self' = c_puct self \<and>
     playout_count self' = playout_count self \<and>
     (\<forall>s. s_p self s \<noteq> None \<longrightarrow> s_p self' s = s_p self s) \<and>
     (\<forall>s. s_valid_moves self s \<noteq> None \<longrightarrow> s_valid_moves self' s = s_valid_moves self s) \<and>
     (\<forall>s. s_r self s \<noteq> None \<longrightarrow> s_r self' s = s_r self s) \<and>
     (\<forall>s. count_nonzero s < n \<longrightarrow>
        s_p self' s = s_p self s \<and> s_n self' s = s_n self s \<and>
        s_valid_moves self' s = s_valid_moves self s \<and> s_r self' s = s_r self s \<and>
        (\<forall>a. sa_q self' (s, a) = sa_q self (s, a) \<and> sa_n self' (s, a) = sa_n self (s, a)))"

subsection \<open>Selection and backup as the specification words them\<close>

text \<open>
  The score of the specification: \<open>Q + c_puct P sqrt N(s) / (1 + N(s,a))\<close> for an
  existing edge, \<open>c_puct P sqrt (N(s) + 1e-8)\<close> otherwise, with \<open>c_puct = 5\<close>.
\<close>

definition spec_score :: "mcts \<Rightarrow> board \<Rightarrow> int \<Rightarrow> real" where
  "spec_score self s a =
     (let P = (case s_p self s of Some pv \<Rightarrow> pv ! nat a | None \<Rightarrow> 0);
          N = (case s_n self s of Some n \<Rightarrow> real n | None \<Rightarrow> 0);
          Nsa = (case sa_n self (s, a) of Some m \<Rightarrow> real m | None \<Rightarrow> 0)
      in case sa_q self (s, a) of
           Some Q \<Rightarrow> Q + 5 * P * sqrt N / (1 + Nsa)
         | None \<Rightarrow> 5 * P * sqrt (N + 1 / 10 ^ 8))"

text \<open>The score \<open>puct_score\<close> computes, where it computes one.\<close>

definition score_of :: "mcts \<Rightarrow> board \<Rightarrow> int \<Rightarrow> real" where
  "score_of self s a = (case puct_score self s a of Inl e \<Rightarrow> 0 | Inr x \<Rightarrow> x)"

text \<open>
  The object after a backup of \<open>v\<close> along the edge \<open>(s, a)\<close>: the running mean, the edge
  count and the state count.
\<close>

definition backed_up :: "mcts \<Rightarrow> board \<Rightarrow> int \<Rightarrow> real \<Rightarrow> mcts" where
  "backed_up self s a v =
     self\<lparr>sa_q := (sa_q self)((s, a) \<mapsto>
              (case sa_q self (s, a) of
                 None \<Rightarrow> v
               | Some q \<Rightarrow> (case sa_n self (s, a) of
                    None \<Rightarrow> v
                  | Some m \<Rightarrow> (real m * q + v) / (real m + 1)))),
          sa_n := (sa_n self)((s, a) \<mapsto> (case sa_n self (s, a) of None \<Rightarrow> 1 | Some m \<Rightarrow> m + 1)),
          s_n := (s_n self)(s \<mapsto> (case s_n self s of None \<Rightarrow> 1 | Some n \<Rightarrow> n + 1))\<rparr>"

subsection \<open>Bounds, runs and the body of search\<close>

text \<open>
  The evaluator's values lie in \<open>[-1, 1]\<close>; the rewards are -1, 0 or 1; the edge means and
  the cached rewards of an object lie in \<open>[-1, 1]\<close>.
\<close>

definition value_bounded :: "predict_fn \<Rightarrow> bool" where
  "value_bounded p \<longleftrightarrow> (\<forall>s. - 1 \<le> snd (p s) \<and> snd (p s) \<le> 1)"

definition reward_bounded :: "reward_fn \<Rightarrow> bool" where
  "reward_bounded R \<longleftrightarrow> (\<forall>s. R s 1 = - 1 \<or> R s 1 = 0 \<or> R s 1 = 1)"

definition means_bounded :: "mcts \<Rightarrow> bool" where
  "means_bounded self \<longleftrightarrow>
     (\<forall>k q. sa_q self k = Some q \<longrightarrow> - 1 \<le> q \<and> q \<le> 1) \<and>
     (\<forall>s r. s_r self s = Some r \<longrightarrow> - 1 \<le> r \<and> r \<le> 1)"

text \<open>
  The objects that a sequence of calls of \<^verbatim>\<open>search\<close> that return produces from
  \<open>self0\<close>, on any positions and with any budgets.
\<close>

inductive searched :: "reward_fn \<Rightarrow> oracle_fn \<Rightarrow> mcts \<Rightarrow> mcts \<Rightarrow> bool"
  for R :: reward_fn and V :: oracle_fn and self0 :: mcts where
  start: "searched R V self0 self0"
| step: "searched R V self0 self \<Longrightarrow> search R V depth self s = Inr (v, self') \<Longrightarrow>
         searched R V self0 self'"

text \<open>
  The body of \<^verbatim>\<open>search\<close> with the recursive call as a parameter: \<open>search\<close> with budget
  \<open>Suc depth\<close> is this body over \<open>search\<close> with budget \<open>depth\<close>.
\<close>

definition search_body ::
  "reward_fn \<Rightarrow> oracle_fn \<Rightarrow> (mcts \<Rightarrow> board \<Rightarrow> error + (real \<times> mcts)) \<Rightarrow> mcts \<Rightarrow> board
     \<Rightarrow> error + (real \<times> mcts)" where
  "search_body R V rec self s =
     (let self0 = cache_reward R self s in
      case lookup (s_r self0) s of Inl e \<Rightarrow> Inl e | Inr r \<Rightarrow>
      if r \<noteq> 0 \<or> count_nonzero s = BOARD_SIZE then Inr (- real_of_int r, self0)
      else if s_p self0 s = None then expand V self0 s
      else
        case select_action self0 s of Inl e \<Rightarrow> Inl e | Inr best_action \<Rightarrow>
        case next_state s best_action of Inl e \<Rightarrow> Inl e | Inr next_s \<Rightarrow>
        case rec self0 next_s of
          Inl e \<Rightarrow> Inl e
        | Inr (v, self1) \<Rightarrow> backup self1 s best_action v)"

subsection \<open>Instances for the examples\<close>

text \<open>
  A reward that never ends the game, an oracle that offers every empty cell, and a
  position with a single stone in the centre.
\<close>

definition no_reward :: reward_fn where
  "no_reward s p = 0"

definition all_empty_cells :: oracle_fn where
  "all_empty_cells s d = filter (\<lambda>a. cell s a = 0) (map int [0..<225])"

definition one_stone :: board where
  "one_stone = (replicate 15 (replicate 15 0))[7 := (replicate 15 0)[7 := 1]]"

text \<open>
  A full board and an empty one, a reward that reports a win everywhere, and an evaluator
  whose priors are all zero.
\<close>

definition full_board :: board where
  "full_board = replicate 15 (replicate 15 1)"

definition empty_board :: board where
  "empty_board = replicate 15 (replicate 15 0)"

definition won_reward :: reward_fn where
  "won_reward s p = 1"

definition zero_predict :: predict_fn where
  "zero_predict state = (replicate 225 0, 0)"

text \<open>
  A board with one empty cell, in the centre; the object that the first playout from it
  leaves; and the same object after a visit of its only edge that backed up the value 1/2.
\<close>

definition one_gap :: board where
  "one_gap = (replicate 15 (replicate 15 1))[7 := (replicate 15 1)[7 := 0]]"

definition gap_store :: mcts where
  "gap_store =
     (MCTS_init None)\<lparr>s_p := [one_gap \<mapsto> (replicate 225 0)[112 := 1]],
                      s_n := [one_gap \<mapsto> 0],
                      s_r := [one_gap \<mapsto> 0],
                      s_valid_moves := [one_gap \<mapsto> [112]]\<rparr>"

definition visited_gap_store :: mcts where
  "visited_gap_store =
     gap_store\<lparr>sa_q := [(one_gap, 112) \<mapsto> 1 / 2],
               sa_n := [(one_gap, 112) \<mapsto> 1],
               s_n := [one_gap \<mapsto> 1]\<rparr>"

section \<open>Boards\<close>

lemma length_filter_update:
  "j < length xs \<Longrightarrow> \<not> P (xs ! j) \<Longrightarrow> P v \<Longrightarrow>
   length (filter P (xs[j := v])) = Suc (length (filter P xs))"
proof (induction xs arbitrary: j)
  case Nil
  then show ?case by simp
next
  case (Cons x xs)
  then show ?case by (cases j) auto
qed

lemma count_nonzero_convert: "count_nonzero (convert_perspective s) = count_nonzero s"
proof -
  have row: "length (filter (\<lambda>n. n \<noteq> 0) (map (\<lambda>n. if n = 2 then n - 1 else n * 2) row)) =
             length (filter (\<lambda>n. n \<noteq> 0) row)" for row :: "int list"
    by (induction row) auto
  show ?thesis
    unfolding count_nonzero_def convert_perspective_def
    using row by (induction s) auto
qed

lemma wf_board_convert: "wf_board (convert_perspective s) = wf_board s"
  by (simp add: wf_board_def convert_perspective_def list_all_iff)

lemma count_nonzero_le: "wf_board s \<Longrightarrow> count_nonzero s \<le> 225"
proof -
  have bound: "(\<forall>row \<in> set s. length row = 15) \<Longrightarrow>
        sum_list (map (\<lambda>row. length (filter (\<lambda>n. n \<noteq> 0) row)) s) \<le> length s * 15" for s :: board
  proof (induction s)
    case Nil
    then show ?case by simp
  next
    case (Cons r s)
    have "length (filter (\<lambda>n. n \<noteq> 0) r) \<le> length r" by (rule length_filter_le)
    with Cons show ?case by simp
  qed
  assume "wf_board s"
  then show ?thesis
    using bound [of s] by (simp add: wf_board_def count_nonzero_def BOARD_WIDTH_def list_all_iff)
qed

lemma count_nonzero_update:
  assumes "i < length s" "j < length (s ! i)" "s ! i ! j = 0" "v \<noteq> 0"
  shows "count_nonzero (s[i := (s ! i)[j := v]]) = Suc (count_nonzero s)"
proof -
  let ?f = "\<lambda>row. length (filter (\<lambda>n. n \<noteq> (0::int)) row)"
  have "map ?f (s[i := (s ! i)[j := v]]) = (map ?f s)[i := ?f ((s ! i)[j := v])]"
    by (simp add: map_update)
  moreover have "?f ((s ! i)[j := v]) = Suc (?f (s ! i))"
    using assms by (intro length_filter_update) auto
  ultimately have "sum_list (map ?f (s[i := (s ! i)[j := v]])) =
      sum_list (map ?f s) + Suc (?f (s ! i)) - (map ?f s) ! i"
    using assms(1) by (simp add: sum_list_update)
  also have "\<dots> = Suc (sum_list (map ?f s))"
    using assms(1) by simp
  finally show ?thesis by (simp add: count_nonzero_def)
qed

lemma cell_eq: "cell s a = s ! nat (a div 15) ! nat (a mod 15)"
  by (simp add: cell_def index_to_pos_def BOARD_WIDTH_def)

lemma count_nonzero_full:
  assumes "wf_board s" "\<forall>row \<in> set s. 0 \<notin> set row"
  shows "count_nonzero s = 225"
proof -
  have "map (\<lambda>row. length (filter (\<lambda>n. n \<noteq> 0) row)) s = map (\<lambda>row. 15) s"
  proof (rule map_cong [OF refl])
    fix row assume r: "row \<in> set s"
    then have "filter (\<lambda>n. n \<noteq> 0) row = row" using assms(2) by (auto simp: filter_id_conv)
    moreover have "length row = 15"
      using assms(1) r by (simp add: wf_board_def BOARD_WIDTH_def list_all_iff)
    ultimately show "length (filter (\<lambda>n. n \<noteq> 0) row) = 15" by simp
  qed
  then have "count_nonzero s = sum_list (map (\<lambda>row. 15) s)"
    unfolding count_nonzero_def by (rule arg_cong)
  also have "\<dots> = 15 * length s" by (simp add: sum_list_triv)
  finally show ?thesis using assms(1) by (simp add: wf_board_def BOARD_WIDTH_def)
qed

lemma exists_empty_cell:
  assumes "wf_board s" "count_nonzero s < 225"
  shows "\<exists>a. 0 \<le> a \<and> a < 225 \<and> cell s a = 0"
proof -
  have "\<not> (\<forall>row \<in> set s. 0 \<notin> set row)"
    using count_nonzero_full [OF assms(1)] assms(2) by auto
  then obtain row where row: "row \<in> set s" "0 \<in> set row" by auto
  then obtain i j where i: "i < length s" "s ! i = row" and j: "j < length row" "row ! j = 0"
    by (auto simp: in_set_conv_nth)
  have li: "i < 15" and lj: "j < 15"
    using assms(1) i j row(1) by (auto simp: wf_board_def BOARD_WIDTH_def list_all_iff)
  let ?a = "int (15 * i + j)"
  have "?a div 15 = int i" "?a mod 15 = int j" using lj by auto
  then have "cell s ?a = 0" using i j by (simp add: cell_eq)
  moreover have "0 \<le> ?a" "?a < 225" using li lj by auto
  ultimately show ?thesis by blast
qed

lemma flip_fixed_iff:
  "(map (map (\<lambda>n. if n = 2 then n - 1 else n * 2)) s = s) = (\<forall>row \<in> set s. \<forall>n \<in> set row. n = (0::int))"
proof -
  have row: "(map (\<lambda>n. if n = 2 then n - 1 else n * 2) r = r) = (\<forall>n \<in> set r. n = (0::int))" for r
    by (induction r) auto
  show ?thesis by (induction s) (auto simp: row)
qed

lemma next_state_ok:
  assumes "wf_board s" "0 \<le> a" "a < 225" "cell s a = 0"
  shows "\<exists>s'. next_state s a = Inr s' \<and> wf_board s' \<and> count_nonzero s' = Suc (count_nonzero s)"
proof -
  let ?c = "convert_perspective s"
  let ?i = "nat (a div 15)" and ?j = "nat (a mod 15)"
  have i: "?i < 15" and j: "?j < 15" using assms(2,3) by auto
  have len: "length ?c = 15" and lens: "length s = 15"
    using assms(1) by (simp_all add: wf_board_def convert_perspective_def BOARD_WIDTH_def)
  have rows: "length (s ! ?i) = 15"
    using assms(1) i lens by (simp add: wf_board_def BOARD_WIDTH_def list_all_length)
  have ci: "?c ! ?i = map (\<lambda>n. if n = 2 then n - 1 else n * 2) (s ! ?i)"
    using i lens by (simp add: convert_perspective_def)
  have rowc: "length (?c ! ?i) = 15" using rows ci by simp
  have zero: "?c ! ?i ! ?j = 0"
    using assms(4) j rows ci by (simp add: cell_eq)
  have "0 \<le> a div 15" "a div 15 < 15" using assms(2,3) by auto
  then have pi: "py_index 15 (a div 15) = Some ?i"
    by (simp add: py_index_def)
  have pj: "py_index 15 (a mod 15) = Some ?j"
    by (simp add: py_index_def)
  have ns: "next_state s a = Inr (?c[?i := (?c ! ?i)[?j := 2]])"
    by (simp add: next_state_def set_cell_def index_to_pos_def BOARD_WIDTH_def len pi rowc pj)
  have wf: "wf_board (?c[?i := (?c ! ?i)[?j := 2]])"
    using assms(1) rowc
    by (auto simp: wf_board_def BOARD_WIDTH_def list_all_iff convert_perspective_def
        dest!: set_update_subset_insert [THEN subsetD])
  have cnt: "count_nonzero (?c[?i := (?c ! ?i)[?j := 2]]) = Suc (count_nonzero ?c)"
    using i j len rowc zero by (intro count_nonzero_update) auto
  show ?thesis using ns wf cnt by (simp add: count_nonzero_convert)
qed

section \<open>The object's invariant\<close>

lemma dom_eq_None: "dom m = dom m' \<Longrightarrow> (m k = None) = (m' k = None)"
  by (metis domIff)

lemma store_ok_None:
  assumes "store_ok self"
  shows "(s_valid_moves self s = None) = (s_p self s = None)"
    and "(s_n self s = None) = (s_p self s = None)"
    and "(sa_n self k = None) = (sa_q self k = None)"
proof -
  from assms have d: "dom (s_valid_moves self) = dom (s_p self)"
    "dom (s_n self) = dom (s_p self)" "dom (sa_n self) = dom (sa_q self)"
    by (simp_all add: store_ok_def)
  show "(s_valid_moves self s = None) = (s_p self s = None)" by (rule dom_eq_None [OF d(1)])
  show "(s_n self s = None) = (s_p self s = None)" by (rule dom_eq_None [OF d(2)])
  show "(sa_n self k = None) = (sa_q self k = None)" by (rule dom_eq_None [OF d(3)])
qed

lemma same_below_refl: "same_below n self self"
  by (simp add: same_below_def)

lemma same_below_trans:
  "same_below n a b \<Longrightarrow> same_below m b c \<Longrightarrow> n \<le> m \<Longrightarrow> same_below n a c"
  unfolding same_below_def
  apply (intro conjI allI impI)
             apply simp_all
  done

lemma cache_reward_fields:
  "s_p (cache_reward R self s) = s_p self"
  "s_n (cache_reward R self s) = s_n self"
  "sa_q (cache_reward R self s) = sa_q self"
  "sa_n (cache_reward R self s) = sa_n self"
  "s_valid_moves (cache_reward R self s) = s_valid_moves self"
  "policy_value_obj (cache_reward R self s) = policy_value_obj self"
  "valid_actions_distance (cache_reward R self s) = valid_actions_distance self"
  "c_puct (cache_reward R self s) = c_puct self"
  "printed (cache_reward R self s) = printed self"
  by (simp_all add: cache_reward_def)

lemma cache_reward_ok: "store_ok self \<Longrightarrow> store_ok (cache_reward R self s)"
  unfolding store_ok_def cache_reward_fields .

lemma cache_reward_same: "n \<le> count_nonzero s \<Longrightarrow> same_below n self (cache_reward R self s)"
  by (auto simp: same_below_def cache_reward_def)

lemma cache_reward_lookup:
  "s_r (cache_reward R self s) s = Some (case s_r self s of None \<Rightarrow> R s 1 | Some r \<Rightarrow> r)"
  by (auto simp: cache_reward_def)

lemma length_masked_probs: "length (masked_probs probs vs) = 225"
  by (simp add: masked_probs_def BOARD_SIZE_def)

lemma length_normalise_probs: "length (normalise_probs ps) = length ps"
  by (simp add: normalise_probs_def Let_def)

lemma expand_ok:
  assumes "store_ok self" "s_p self s = None" "predict_ok (policy_value_obj self)"
    "oracle_ok V (valid_actions_distance self) n0" "wf_board s" "n0 \<le> count_nonzero s"
    "count_nonzero s < 225"
  shows "\<exists>v self'. expand V self s = Inr (v, self') \<and> store_ok self' \<and>
           same_below (count_nonzero s) self self'"
proof -
  obtain probs v where pv: "policy_value_obj self s = (probs, v)" by (cases "policy_value_obj self s")
  have len: "\<not> length probs < BOARD_SIZE"
    using assms(3) pv by (auto simp: predict_ok_def dest: spec [of _ s])
  let ?vs = "V s (valid_actions_distance self)"
  have vs: "?vs \<noteq> []" "\<forall>a \<in> set ?vs. 0 \<le> a \<and> a < 225 \<and> cell s a = 0"
    using assms(4,5,6,7) by (auto simp: oracle_ok_def BOARD_SIZE_def)
  let ?masked = "masked_probs probs ?vs"
  let ?self' = "self\<lparr>s_valid_moves := (s_valid_moves self)(s \<mapsto> ?vs),
      s_p := (s_p self)(s \<mapsto> normalise_probs ?masked),
      s_n := (s_n self)(s \<mapsto> 0),
      printed := (if sum_list ?masked = 0 then printed self @ [''warning: all moves masked'']
                  else printed self)\<rparr>"
  have e: "expand V self s = Inr (- v, ?self')"
    using pv len by (simp add: expand_def Let_def)
  have ok: "store_ok ?self'"
    using assms(1) vs by (auto simp: store_ok_def length_normalise_probs length_masked_probs)
  have nn: "s_valid_moves self s = None" "s_n self s = None"
    using assms(2) by (simp_all add: store_ok_None [OF assms(1)])
  have same: "same_below (count_nonzero s) self ?self'"
    using assms(2) nn by (auto simp: same_below_def)
  show ?thesis using e ok same by blast
qed

section \<open>Selection\<close>

lemma puct_score_total:
  assumes "s_p self s = Some pv" "s_n self s = Some n" "dom (sa_n self) = dom (sa_q self)"
    "0 \<le> a" "a < int (length pv)"
  shows "puct_score self s a = Inr (score_of self s a)"
proof -
  have idx: "py_index (length pv) a = Some (nat a)"
    using assms(4,5) by (simp add: py_index_def)
  show ?thesis
  proof (cases "sa_q self (s, a)")
    case None
    then show ?thesis
      using assms(1,2) idx by (simp add: score_of_def puct_score_def lookup_def)
  next
    case (Some q)
    then have "sa_n self (s, a) \<noteq> None"
      using dom_eq_None [OF assms(3), of "(s, a)"] by simp
    then obtain m where "sa_n self (s, a) = Some m" by blast
    then show ?thesis
      using assms(1,2) idx Some by (simp add: score_of_def puct_score_def lookup_def)
  qed
qed

lemma puct_score_spec:
  assumes "s_p self s = Some pv" "s_n self s = Some n" "dom (sa_n self) = dom (sa_q self)"
    "0 \<le> a" "a < int (length pv)" "c_puct self = 5"
  shows "puct_score self s a = Inr (spec_score self s a)"
proof -
  have idx: "py_index (length pv) a = Some (nat a)"
    using assms(4,5) by (simp add: py_index_def)
  show ?thesis
  proof (cases "sa_q self (s, a)")
    case None
    then show ?thesis
      using assms(1,2,6) idx by (simp add: spec_score_def puct_score_def lookup_def EPS_def)
  next
    case (Some q)
    then have "sa_n self (s, a) \<noteq> None"
      using dom_eq_None [OF assms(3), of "(s, a)"] by simp
    then obtain m where "sa_n self (s, a) = Some m" by blast
    then show ?thesis
      using assms(1,2,6) idx Some by (simp add: spec_score_def puct_score_def lookup_def)
  qed
qed

lemma select_loop_append:
  "select_loop self s (xs @ ys) acc =
     (case select_loop self s xs acc of Inl e \<Rightarrow> Inl e | Inr acc' \<Rightarrow> select_loop self s ys acc')"
proof (induction xs arbitrary: acc)
  case Nil
  then show ?case by simp
next
  case (Cons x xs)
  obtain b ba where acc: "acc = (b, ba)" by (cases acc)
  show ?case
    unfolding acc by (cases "puct_score self s x") (simp_all add: Cons.IH)
qed

lemma select_loop_argmax:
  assumes "\<forall>a \<in> set vs. puct_score self s a = Inr (f a)" "vs \<noteq> []"
  shows "\<exists>i<length vs. select_loop self s vs (None, ba) = Inr (Some (f (vs ! i)), vs ! i) \<and>
           (\<forall>j<length vs. f (vs ! j) \<le> f (vs ! i)) \<and> (\<forall>j<i. f (vs ! j) < f (vs ! i))"
  using assms
proof (induction vs rule: rev_induct)
  case Nil
  then show ?case by simp
next
  case (snoc x xs)
  have fx: "puct_score self s x = Inr (f x)" using snoc.prems(1) by simp
  show ?case
  proof (cases "xs = []")
    case True
    then show ?thesis using fx by simp
  next
    case False
    with snoc obtain i where i: "i < length xs"
      and run: "select_loop self s xs (None, ba) = Inr (Some (f (xs ! i)), xs ! i)"
      and mx: "\<forall>j<length xs. f (xs ! j) \<le> f (xs ! i)"
      and first: "\<forall>j<i. f (xs ! j) < f (xs ! i)"
      by auto
    show ?thesis
    proof (cases "f x > f (xs ! i)")
      case True
      have "select_loop self s (xs @ [x]) (None, ba) = Inr (Some (f x), x)"
        using run fx True by (simp add: select_loop_append)
      moreover have "\<forall>j<length (xs @ [x]). f ((xs @ [x]) ! j) \<le> f x"
        using mx True by (fastforce simp: nth_append less_Suc_eq)
      moreover have "\<forall>j<length xs. f ((xs @ [x]) ! j) < f x"
        using mx True by (fastforce simp: nth_append)
      ultimately show ?thesis
        by (intro exI [of _ "length xs"]) simp
    next
      case False
      have "select_loop self s (xs @ [x]) (None, ba) = Inr (Some (f (xs ! i)), xs ! i)"
        using run fx False by (simp add: select_loop_append)
      moreover have "\<forall>j<length (xs @ [x]). f ((xs @ [x]) ! j) \<le> f (xs ! i)"
        using mx False by (auto simp: nth_append less_Suc_eq)
      moreover have "\<forall>j<i. f ((xs @ [x]) ! j) < f (xs ! i)"
        using first i by (auto simp: nth_append)
      ultimately show ?thesis
        using i by (intro exI [of _ i]) (simp add: nth_append)
    qed
  qed
qed

lemma select_action_ok:
  assumes "store_ok self" "s_p self s = Some pv"
  shows "\<exists>vs a. s_valid_moves self s = Some vs \<and> select_action self s = Inr a \<and> a \<in> set vs"
proof -
  have "s_valid_moves self s \<noteq> None" "s_n self s \<noteq> None"
    using assms(2) by (simp_all add: store_ok_None [OF assms(1)])
  then obtain vs n where vs: "s_valid_moves self s = Some vs" and n: "s_n self s = Some n"
    by blast
  have len: "length pv = 225" and ne: "vs \<noteq> []"
    and rng: "\<forall>a \<in> set vs. 0 \<le> a \<and> a < 225"
    and d: "dom (sa_n self) = dom (sa_q self)"
    using assms vs by (auto simp: store_ok_def)
  have "\<forall>a \<in> set vs. puct_score self s a = Inr (score_of self s a)"
    using rng len by (auto intro!: puct_score_total [OF assms(2) n d])
  from select_loop_argmax [OF this ne, of "- 1"] obtain i where "i < length vs"
    "select_loop self s vs (None, - 1) = Inr (Some (score_of self s (vs ! i)), vs ! i)"
    by blast
  then show ?thesis using vs by (auto simp: select_action_def lookup_def)
qed

section \<open>Backup\<close>

lemma backup_eq:
  assumes "dom (sa_n self) = dom (sa_q self)" "s_n self s = Some n"
  shows "backup self s a v = Inr (- v, backed_up self s a v)"
proof (cases "sa_q self (s, a)")
  case None
  then have "sa_n self (s, a) = None"
    using dom_eq_None [OF assms(1), of "(s, a)"] by simp
  with None assms(2) show ?thesis
    by (simp add: backup_def backed_up_def lookup_def)
next
  case (Some q)
  then have "sa_n self (s, a) \<noteq> None"
    using dom_eq_None [OF assms(1), of "(s, a)"] by simp
  then obtain m where "sa_n self (s, a) = Some m" by blast
  with Some assms(2) show ?thesis
    by (simp add: backup_def backed_up_def lookup_def)
qed

lemma backed_up_ok:
  assumes "store_ok self" "s_p self s \<noteq> None"
  shows "store_ok (backed_up self s a v)"
proof -
  have "s \<in> dom (s_p self)" using assms(2) by (simp add: domIff)
  then show ?thesis
    using assms(1) by (auto simp: store_ok_def backed_up_def)
qed

lemma backed_up_same: "s_p self s \<noteq> None \<Longrightarrow> same_below (count_nonzero s) self (backed_up self s a v)"
  by (auto simp: same_below_def backed_up_def)

lemma root_counts_backed_up:
  assumes "0 \<le> a" "a < 225"
  shows "sum_list (root_counts (backed_up self s a v) s) = Suc (sum_list (root_counts self s))"
proof -
  let ?xs = "root_counts self s"
  have len: "length ?xs = 225" by (simp add: root_counts_def BOARD_SIZE_def)
  have na: "nat a < 225" using assms by simp
  have "root_counts (backed_up self s a v) s = ?xs[nat a := Suc (?xs ! nat a)]"
  proof (rule nth_equalityI)
    show "length (root_counts (backed_up self s a v) s) = length (?xs[nat a := Suc (?xs ! nat a)])"
      by (simp add: root_counts_def)
  next
    fix i assume "i < length (root_counts (backed_up self s a v) s)"
    then have i: "i < 225" by (simp add: root_counts_def BOARD_SIZE_def)
    show "root_counts (backed_up self s a v) s ! i = ?xs[nat a := Suc (?xs ! nat a)] ! i"
    proof (cases "i = nat a")
      case True
      then have "int i = a" using assms by simp
      then show ?thesis
        using i True by (simp add: root_counts_def BOARD_SIZE_def backed_up_def split: option.splits)
    next
      case False
      then have "int i \<noteq> a" by auto
      then show ?thesis
        using i False by (simp add: root_counts_def BOARD_SIZE_def backed_up_def)
    qed
  qed
  then have "sum_list (root_counts (backed_up self s a v) s) = sum_list ?xs + Suc (?xs ! nat a) - ?xs ! nat a"
    using na len by (simp add: sum_list_update)
  then show ?thesis by simp
qed

lemma root_counts_same:
  "same_below (Suc (count_nonzero s)) self self' \<Longrightarrow> root_counts self' s = root_counts self s"
  by (simp add: same_below_def root_counts_def)

lemma root_counts_cache: "root_counts (cache_reward R self s') s = root_counts self s"
  by (simp add: root_counts_def cache_reward_fields)

section \<open>search returns, and what it changes\<close>

text \<open>
  With a budget above the number of empty cells, \<^verbatim>\<open>search\<close> returns; it keeps the
  invariant, touches no entry of a position with fewer stones, and at an expanded,
  non-terminal position adds one visit to exactly one of the 225 edges.
\<close>

lemma search_total:
  assumes "store_ok self" "predict_ok (policy_value_obj self)"
    "oracle_ok V (valid_actions_distance self) n0" "wf_board s"
    "n0 \<le> count_nonzero s" "225 - count_nonzero s < depth"
  shows "\<exists>v self'. search R V depth self s = Inr (v, self') \<and> store_ok self' \<and>
           same_below (count_nonzero s) self self' \<and>
           s_r self' s = Some (cached_reward R self s) \<and>
           (\<not> is_terminal R self s \<longrightarrow> s_p self' s \<noteq> None) \<and>
           (is_terminal R self s \<or> s_p self s = None \<longrightarrow>
              sa_n self' = sa_n self \<and> sa_q self' = sa_q self) \<and>
           (\<not> is_terminal R self s \<and> s_p self s \<noteq> None \<longrightarrow>
              sum_list (root_counts self' s) = Suc (sum_list (root_counts self s)))"
  using assms
proof (induction depth arbitrary: self s)
  case 0
  then show ?case by simp
next
  case (Suc depth)
  let ?self0 = "cache_reward R self s"
  let ?r = "cached_reward R self s"
  note ok = Suc.prems(1)
  have ok0: "store_ok ?self0" using ok by (rule cache_reward_ok)
  have same0: "same_below (count_nonzero s) self ?self0" by (simp add: cache_reward_same)
  have r0: "lookup (s_r ?self0) s = Inr ?r"
    by (simp add: lookup_def cache_reward_lookup cached_reward_def)
  have sr0: "s_r ?self0 s = Some ?r"
    by (simp add: cache_reward_lookup cached_reward_def)
  show ?case
  proof (cases "is_terminal R self s")
    case True
    then have "search R V (Suc depth) self s = Inr (- real_of_int ?r, ?self0)"
      using r0 by (simp add: is_terminal_def Let_def)
    with ok0 same0 sr0 True show ?thesis by (simp add: cache_reward_fields)
  next
    case nonterm: False
    then have rz: "?r = 0" and nf: "count_nonzero s \<noteq> BOARD_SIZE"
      by (simp_all add: is_terminal_def)
    have lt: "count_nonzero s < 225"
      using count_nonzero_le [OF Suc.prems(4)] nf by (simp add: BOARD_SIZE_def)
    show ?thesis
    proof (cases "s_p self s")
      case None
      then have leaf: "s_p ?self0 s = None" by (simp add: cache_reward_fields)
      have "\<exists>v self'. expand V ?self0 s = Inr (v, self') \<and> store_ok self' \<and>
              same_below (count_nonzero s) ?self0 self'"
        using ok0 leaf Suc.prems(2,3,4,5) lt
        by (intro expand_ok [where ?n0.0 = n0]) (simp_all add: cache_reward_fields)
      then obtain v self' where e: "expand V ?self0 s = Inr (v, self')" and ok': "store_ok self'"
        and same': "same_below (count_nonzero s) ?self0 self'" by blast
      have run: "search R V (Suc depth) self s = Inr (v, self')"
        using r0 rz nf leaf e by (simp add: Let_def)
      have same: "same_below (count_nonzero s) self self'"
        using same0 same' by (rule same_below_trans) simp
      have sr: "s_r self' s = Some ?r"
        using same' sr0 by (simp add: same_below_def)
      have "s_p self' s \<noteq> None" "sa_n self' = sa_n self" "sa_q self' = sa_q self"
        using e None by (auto simp: expand_def Let_def cache_reward_fields split: prod.splits if_splits)
      with run ok' same sr None show ?thesis by simp
    next
      case (Some pv)
      then have internal: "s_p ?self0 s = Some pv" by (simp add: cache_reward_fields)
      from select_action_ok [OF ok0 internal] obtain vs a where
        vs: "s_valid_moves ?self0 s = Some vs" and sel: "select_action ?self0 s = Inr a"
        and a: "a \<in> set vs" by blast
      have a_ok: "0 \<le> a" "a < 225" "cell s a = 0"
        using ok0 vs a by (auto simp: store_ok_def)
      from next_state_ok [OF Suc.prems(4) a_ok] obtain s' where
        ns: "next_state s a = Inr s'" and wf': "wf_board s'"
        and cnt: "count_nonzero s' = Suc (count_nonzero s)" by blast
      have "\<exists>v self1. search R V depth ?self0 s' = Inr (v, self1) \<and> store_ok self1 \<and>
              same_below (count_nonzero s') ?self0 self1 \<and>
              s_r self1 s' = Some (cached_reward R ?self0 s') \<and>
              (\<not> is_terminal R ?self0 s' \<longrightarrow> s_p self1 s' \<noteq> None) \<and>
              (is_terminal R ?self0 s' \<or> s_p ?self0 s' = None \<longrightarrow>
                 sa_n self1 = sa_n ?self0 \<and> sa_q self1 = sa_q ?self0) \<and>
              (\<not> is_terminal R ?self0 s' \<and> s_p ?self0 s' \<noteq> None \<longrightarrow>
                 sum_list (root_counts self1 s') = Suc (sum_list (root_counts ?self0 s')))"
        using ok0 Suc.prems(2,3,5,6) wf' cnt lt
        by (intro Suc.IH) (simp_all add: cache_reward_fields)
      then obtain v self1 where run1: "search R V depth ?self0 s' = Inr (v, self1)"
        and ok1: "store_ok self1" and same1: "same_below (Suc (count_nonzero s)) ?self0 self1"
        using cnt by auto
      have sp1: "s_p self1 s = Some pv"
        using same1 internal by (simp add: same_below_def)
      then have "s_n self1 s \<noteq> None" by (simp add: store_ok_None [OF ok1])
      then obtain n where n1: "s_n self1 s = Some n" by blast
      have d1: "dom (sa_n self1) = dom (sa_q self1)" using ok1 by (simp add: store_ok_def)
      let ?self' = "backed_up self1 s a v"
      have run: "search R V (Suc depth) self s = Inr (- v, ?self')"
        using r0 rz nf internal sel ns run1 backup_eq [OF d1 n1] by (simp add: Let_def)
      have ok': "store_ok ?self'" using ok1 sp1 by (intro backed_up_ok) simp_all
      have same2: "same_below (count_nonzero s) self1 ?self'"
        using sp1 by (intro backed_up_same) simp
      have same01: "same_below (count_nonzero s) ?self0 self1"
        using same_below_refl same1 by (rule same_below_trans) simp
      have same: "same_below (count_nonzero s) self ?self'"
        using same_below_trans [OF same0 same01] same2 by (rule same_below_trans) simp_all
      have sr: "s_r ?self' s = Some ?r"
        using same01 same2 sr0 by (simp add: same_below_def)
      have sp: "s_p ?self' s \<noteq> None"
        using same2 sp1 by (simp add: same_below_def)
      have "sum_list (root_counts ?self' s) = Suc (sum_list (root_counts self1 s))"
        using a_ok(1,2) by (rule root_counts_backed_up)
      also have "root_counts self1 s = root_counts ?self0 s"
        using same1 by (rule root_counts_same)
      also have "\<dots> = root_counts self s" by (rule root_counts_cache)
      finally have "sum_list (root_counts ?self' s) = Suc (sum_list (root_counts self s))" .
      with run ok' same sr sp Some nonterm show ?thesis by simp
    qed
  qed
qed

lemma is_terminal_kept:
  "s_r self' s = Some (cached_reward R self s) \<Longrightarrow> is_terminal R self' s = is_terminal R self s"
  by (simp add: is_terminal_def cached_reward_def)

lemma playouts_internal:
  assumes "store_ok self" "predict_ok (policy_value_obj self)"
    "oracle_ok V (valid_actions_distance self) (count_nonzero s)" "wf_board s"
    "225 - count_nonzero s < depth" "\<not> is_terminal R self s" "s_p self s \<noteq> None"
  shows "\<exists>self'. playouts R V depth k self s = Inr self' \<and> store_ok self' \<and>
           same_below (count_nonzero s) self self' \<and>
           sum_list (root_counts self' s) = sum_list (root_counts self s) + k"
  using assms
proof (induction k arbitrary: self)
  case 0
  then show ?case by (simp add: same_below_refl)
next
  case (Suc k)
  from search_total [OF Suc.prems(1,2,3,4) order_refl Suc.prems(5), of R]
  obtain v self1 where run: "search R V depth self s = Inr (v, self1)"
    and ok1: "store_ok self1" and same1: "same_below (count_nonzero s) self self1"
    and sr1: "s_r self1 s = Some (cached_reward R self s)"
    and sp1: "s_p self1 s \<noteq> None"
    and cnt1: "sum_list (root_counts self1 s) = Suc (sum_list (root_counts self s))"
    using Suc.prems(6,7) by blast
  have env: "policy_value_obj self1 = policy_value_obj self"
    "valid_actions_distance self1 = valid_actions_distance self"
    using same1 by (simp_all add: same_below_def)
  have nt1: "\<not> is_terminal R self1 s"
    using Suc.prems(6) is_terminal_kept [OF sr1] by simp
  from Suc.IH [OF ok1 _ _ Suc.prems(4,5) nt1 sp1] Suc.prems(2,3) env
  obtain self' where run': "playouts R V depth k self1 s = Inr self'" and ok': "store_ok self'"
    and same': "same_below (count_nonzero s) self1 self'"
    and cnt': "sum_list (root_counts self' s) = sum_list (root_counts self1 s) + k"
    by auto
  have "same_below (count_nonzero s) self self'"
    using same1 same' by (rule same_below_trans) simp
  with run run' ok' cnt1 cnt' show ?case by simp
qed

lemma store_ok_init: "store_ok (MCTS_init obj\<lparr>playout_count := N\<rparr>)"
  by (simp add: store_ok_def MCTS_init_def)

lemma root_counts_fresh_zero:
  "sa_n self = Map.empty \<Longrightarrow> sum_list (root_counts self s) = 0"
  by (simp add: root_counts_def)

lemma playouts_fresh:
  assumes "predict_ok (policy_value_obj (MCTS_init obj\<lparr>playout_count := N\<rparr>))"
    "oracle_ok V 1 (count_nonzero s)" "wf_board s" "225 - count_nonzero s < depth"
    "R s 1 = 0" "count_nonzero s \<noteq> 225"
  shows "\<exists>self'. playouts R V depth (Suc k) (MCTS_init obj\<lparr>playout_count := N\<rparr>) s = Inr self' \<and>
           store_ok self' \<and> sum_list (root_counts self' s) = k"
proof -
  define self where "self = MCTS_init obj\<lparr>playout_count := N\<rparr>"
  have ok: "store_ok self" by (simp add: self_def store_ok_init)
  have d: "valid_actions_distance self = 1" by (simp add: self_def MCTS_init_def)
  have empty: "s_p self s = None" "sa_n self = Map.empty" "s_r self s = None"
    by (simp_all add: self_def MCTS_init_def)
  note assms = TrueI assms [folded self_def]
  have nt: "\<not> is_terminal R self s"
    using assms(6,7) empty by (simp add: is_terminal_def cached_reward_def BOARD_SIZE_def)
  have orc: "oracle_ok V (valid_actions_distance self) (count_nonzero s)"
    using assms(3) d by simp
  from search_total [OF ok assms(2) orc assms(4) order_refl assms(5), of R]
  obtain v self1 where run: "search R V depth self s = Inr (v, self1)"
    and ok1: "store_ok self1" and same1: "same_below (count_nonzero s) self self1"
    and sr1: "s_r self1 s = Some (cached_reward R self s)"
    and sp1: "s_p self1 s \<noteq> None" and san: "sa_n self1 = sa_n self"
    using nt empty(1) by blast
  have env: "policy_value_obj self1 = policy_value_obj self"
    "valid_actions_distance self1 = valid_actions_distance self"
    using same1 by (simp_all add: same_below_def)
  have nt1: "\<not> is_terminal R self1 s"
    using nt is_terminal_kept [OF sr1] by simp
  have z: "sum_list (root_counts self1 s) = 0"
    using san empty(2) by (simp add: root_counts_fresh_zero)
  from playouts_internal [OF ok1 _ _ assms(4,5) nt1 sp1, of V k] assms(2) orc env
  obtain self' where "playouts R V depth k self1 s = Inr self'" "store_ok self'"
    "sum_list (root_counts self' s) = sum_list (root_counts self1 s) + k"
    by auto
  with run z show ?thesis by (simp add: self_def)
qed

section \<open>The instances\<close>

lemma oracle_ok_all_empty_cells: "oracle_ok all_empty_cells d n0"
  unfolding oracle_ok_def
proof (intro allI impI conjI)
  fix s assume h: "wf_board s \<and> n0 \<le> count_nonzero s \<and> count_nonzero s < BOARD_SIZE"
  then obtain a where a: "0 \<le> a" "a < 225" "cell s a = 0"
    using exists_empty_cell [of s] by (auto simp: BOARD_SIZE_def)
  then have "a \<in> int ` {0..<225}" by (intro image_eqI [of _ _ "nat a"]) auto
  then have "a \<in> set (all_empty_cells s d)" using a(3) by (simp add: all_empty_cells_def)
  then show "all_empty_cells s d \<noteq> []" by auto
  show "\<forall>a \<in> set (all_empty_cells s d). 0 \<le> a \<and> a < 225 \<and> cell s a = 0"
    by (auto simp: all_empty_cells_def)
qed

lemma predict_ok_random: "predict_ok RandomPolicyValueClass_predict"
  by (simp add: predict_ok_def RandomPolicyValueClass_predict_def BOARD_SIZE_def)

lemma one_stone_facts: "wf_board one_stone" "count_nonzero one_stone = 1"
  by code_simp+

section \<open>Root visit counts after the playouts\<close>

lemma get_probs_fresh:
  assumes "predict_ok (policy_value_obj (MCTS_init obj\<lparr>playout_count := N\<rparr>))"
    "oracle_ok V 1 (count_nonzero s)" "wf_board s" "225 - count_nonzero s < depth"
    "R s 1 = 0" "count_nonzero s \<noteq> 225" "1 \<le> N"
  shows "\<exists>self'. playouts R V depth N (MCTS_init obj\<lparr>playout_count := N\<rparr>) s = Inr self' \<and>
           sum_list (root_counts self' s) = N - 1 \<and>
           get_probs R V depth (MCTS_init obj\<lparr>playout_count := N\<rparr>) s =
             (if N = 1 then Inl ZeroDivisionError
              else Inr (map (\<lambda>c. real c / real (N - 1)) (root_counts self' s), self'))"
proof -
  obtain k where N: "N = Suc k" using assms(7) by (cases N) auto
  have "\<exists>self'. playouts R V depth (Suc k) (MCTS_init obj\<lparr>playout_count := N\<rparr>) s = Inr self' \<and>
      store_ok self' \<and> sum_list (root_counts self' s) = k"
    using assms(1-6) by (intro playouts_fresh)
  then obtain self' where
    run: "playouts R V depth (Suc k) (MCTS_init obj\<lparr>playout_count := N\<rparr>) s = Inr self'"
    and cnt: "sum_list (root_counts self' s) = k"
    by blast
  have pc: "playout_count (MCTS_init obj\<lparr>playout_count := N\<rparr>) = Suc k"
    by (simp add: N)
  have "get_probs R V depth (MCTS_init obj\<lparr>playout_count := N\<rparr>) s =
      (if k = 0 then Inl ZeroDivisionError
       else Inr (map (\<lambda>c. real c / real k) (root_counts self' s), self'))"
    unfolding get_probs_def pc run using cnt by (simp add: Let_def del: sum_list_eq_0_iff)
  with run cnt show ?thesis unfolding N by (intro exI [of _ self']) simp
qed

text \<open>
  C1, as the claim states it, fails: one playout from a fresh object expands the root and
  touches no edge, so the visit total is 0 and not 1.
\<close>

theorem root_visits_one_playout:
  "count_root_visits no_reward all_empty_cells 226 (MCTS_init None\<lparr>playout_count := 1\<rparr>) one_stone
     = Inr 0"
proof -
  have "predict_ok (policy_value_obj (MCTS_init None\<lparr>playout_count := 1\<rparr>))"
    by (simp add: MCTS_init_def predict_ok_random)
  then have "\<exists>self'. playouts no_reward all_empty_cells 226 (Suc 0)
      (MCTS_init None\<lparr>playout_count := 1\<rparr>) one_stone = Inr self' \<and>
      store_ok self' \<and> sum_list (root_counts self' one_stone) = 0"
    by (intro playouts_fresh oracle_ok_all_empty_cells)
      (simp_all add: one_stone_facts no_reward_def)
  then show ?thesis by (auto simp: count_root_visits_def)
qed

text \<open>
  C1, amended. For a well-formed root that is not terminal, an evaluator that returns 225
  priors, an oracle that returns a non-empty list of empty cells on the positions below
  the root, a recursion budget above the number of empty cells and a playout count
  \<open>N \<ge> 1\<close>: after the \<open>N\<close> playouts of \<^verbatim>\<open>get_probs\<close> on a fresh object, the root's edge
  visit counts sum to \<open>N - 1\<close>. The first playout expands the root; each later one adds
  one visit to one root edge. \<^verbatim>\<open>get_probs\<close> then divides the counts by \<open>N - 1\<close>, which
  is a division by zero when \<open>N = 1\<close>.
\<close>

theorem root_visits_after_playouts:
  assumes "wf_board s" "R s 1 = 0" "count_nonzero s \<noteq> 225"
    "predict_ok (policy_value_obj (MCTS_init obj))" "oracle_ok V 1 (count_nonzero s)"
    "225 - count_nonzero s < depth" "1 \<le> N"
  shows "count_root_visits R V depth (MCTS_init obj\<lparr>playout_count := N\<rparr>) s = Inr (N - 1) \<and>
         (\<exists>self'. playouts R V depth N (MCTS_init obj\<lparr>playout_count := N\<rparr>) s = Inr self' \<and>
            sum_list (root_counts self' s) = N - 1 \<and>
            get_probs R V depth (MCTS_init obj\<lparr>playout_count := N\<rparr>) s =
              (if N = 1 then Inl ZeroDivisionError
               else Inr (map (\<lambda>c. real c / real (N - 1)) (root_counts self' s), self')))"
proof -
  let ?self = "MCTS_init obj\<lparr>playout_count := N\<rparr>"
  have p: "predict_ok (policy_value_obj ?self)" using assms(4) by simp
  have "\<exists>self'. playouts R V depth N ?self s = Inr self' \<and>
          sum_list (root_counts self' s) = N - 1 \<and>
          get_probs R V depth ?self s =
            (if N = 1 then Inl ZeroDivisionError
             else Inr (map (\<lambda>c. real c / real (N - 1)) (root_counts self' s), self'))"
    using p assms(1,2,3,5,6,7) by (intro get_probs_fresh)
  then show ?thesis by (auto simp: count_root_visits_def)
qed

theorem root_visits_after_playouts_witness:
  "count_root_visits no_reward all_empty_cells 226 (MCTS_init None\<lparr>playout_count := 3\<rparr>) one_stone
     = Inr 2"
proof -
  have "predict_ok (policy_value_obj (MCTS_init None))"
    by (simp add: MCTS_init_def predict_ok_random)
  from root_visits_after_playouts [where R = no_reward and s = one_stone and V = all_empty_cells
      and depth = 226 and N = 3, OF one_stone_facts(1) _ _ this oracle_ok_all_empty_cells]
  show ?thesis by (simp add: one_stone_facts no_reward_def)
qed

section \<open>The terminal check\<close>

lemma full_board_facts: "wf_board full_board" "list_all (\<lambda>row. 0 \<notin> set row) full_board"
  by code_simp+

text \<open>
  C3. When the reward that \<^verbatim>\<open>self.s_r\<close> holds for the position after lines 52 and 53 is
  not zero, or the position is a 15 x 15 board with no empty cell, \<^verbatim>\<open>search\<close> returns
  the negated reward; the only table it may have written is \<open>s_r\<close>: prior vectors, state
  visit counts, edge means, edge counts and stored legal actions are as before.
\<close>

theorem search_terminal:
  assumes "cached_reward R self s \<noteq> 0 \<or> (wf_board s \<and> (\<forall>row \<in> set s. 0 \<notin> set row))"
  shows "search R V (Suc depth) self s =
           Inr (- real_of_int (cached_reward R self s), cache_reward R self s) \<and>
         s_p (cache_reward R self s) = s_p self \<and>
         s_n (cache_reward R self s) = s_n self \<and>
         sa_q (cache_reward R self s) = sa_q self \<and>
         sa_n (cache_reward R self s) = sa_n self \<and>
         s_valid_moves (cache_reward R self s) = s_valid_moves self"
proof -
  have "cached_reward R self s \<noteq> 0 \<or> count_nonzero s = BOARD_SIZE"
    using assms count_nonzero_full [of s] by (auto simp: BOARD_SIZE_def)
  moreover have "lookup (s_r (cache_reward R self s)) s = Inr (cached_reward R self s)"
    by (simp add: lookup_def cache_reward_lookup cached_reward_def)
  ultimately have "search R V (Suc depth) self s =
      Inr (- real_of_int (cached_reward R self s), cache_reward R self s)"
    by (simp add: Let_def)
  then show ?thesis by (simp add: cache_reward_fields)
qed

theorem search_terminal_witness:
  "search no_reward all_empty_cells (Suc 0) (MCTS_init None) full_board =
     Inr (0, cache_reward no_reward (MCTS_init None) full_board) \<and>
   search won_reward all_empty_cells (Suc 0) (MCTS_init None) one_stone =
     Inr (- 1, cache_reward won_reward (MCTS_init None) one_stone)"
proof -
  have r0: "cached_reward no_reward (MCTS_init None) full_board = 0"
    by (simp add: cached_reward_def MCTS_init_def no_reward_def)
  have r1: "cached_reward won_reward (MCTS_init None) one_stone = 1"
    by (simp add: cached_reward_def MCTS_init_def won_reward_def)
  have full: "wf_board full_board \<and> (\<forall>row \<in> set full_board. 0 \<notin> set row)"
    using full_board_facts by (simp add: list_all_iff)
  from search_terminal [of no_reward "MCTS_init None" full_board all_empty_cells 0] full r0
  have a: "search no_reward all_empty_cells (Suc 0) (MCTS_init None) full_board =
     Inr (0, cache_reward no_reward (MCTS_init None) full_board)" by simp
  from search_terminal [of won_reward "MCTS_init None" one_stone all_empty_cells 0] r1
  have b: "search won_reward all_empty_cells (Suc 0) (MCTS_init None) one_stone =
     Inr (- 1, cache_reward won_reward (MCTS_init None) one_stone)" by simp
  show ?thesis using a b by (rule conjI)
qed

section \<open>Leaf expansion\<close>

lemma sum_list_divide_const: "sum_list (map (\<lambda>p. p / t) ps) = sum_list ps / (t::real)"
  by (induction ps) (simp_all add: add_divide_distrib)

lemma masked_probs_eq:
  "masked_probs probs vs = map (\<lambda>i. if int i \<in> set vs then probs ! i else 0) [0..<225]"
  by (simp add: masked_probs_def BOARD_SIZE_def)

lemma sum_list_normalise_probs:
  "ps \<noteq> [] \<Longrightarrow> sum_list (normalise_probs ps) = 1"
  by (simp add: normalise_probs_def Let_def sum_list_replicate sum_list_divide_const)

lemma sum_list_all_zero: "(\<forall>x \<in> set xs. f x = (0::real)) \<Longrightarrow> sum_list (map f xs) = 0"
  by (induction xs) simp_all

text \<open>
  C4. At the first expansion of a position (not terminal, no prior vector yet, an
  evaluator that returns at least 225 priors), \<^verbatim>\<open>search\<close> returns the negated value and
  stores the priors masked to the oracle's actions: all 225 entries \<open>1/225\<close> and a
  warning on the console when the masked sum is 0, every entry divided by the sum when
  it is neither 0 nor 1, the masked priors themselves when it is 1. The stored vector
  has 225 entries and sums to 1 (priors are real numbers here).
\<close>

theorem leaf_expansion_priors:
  assumes "\<not> is_terminal R self s" "s_p self s = None"
    "policy_value_obj self s = (probs, v)" "BOARD_SIZE \<le> length probs"
    "legal = V s (valid_actions_distance self)"
    "masked = map (\<lambda>i. if int i \<in> set legal then probs ! i else 0) [0..<225]"
  shows "\<exists>self' pv. search R V (Suc depth) self s = Inr (- v, self') \<and>
           s_p self' s = Some pv \<and> length pv = 225 \<and> sum_list pv = 1 \<and>
           s_n self' s = Some 0 \<and> s_valid_moves self' s = Some legal \<and>
           (if sum_list masked = 0
            then pv = replicate 225 (1 / 225) \<and>
                 printed self' = printed self @ [''warning: all moves masked'']
            else if sum_list masked \<noteq> 1
            then pv = map (\<lambda>p. p / sum_list masked) masked \<and> printed self' = printed self
            else pv = masked \<and> printed self' = printed self)"
proof -
  let ?self0 = "cache_reward R self s"
  have m: "masked = masked_probs probs legal"
    using assms(6) by (simp add: masked_probs_eq)
  have len: "length masked = 225" using assms(6) by simp
  have r0: "lookup (s_r ?self0) s = Inr 0" and nf: "count_nonzero s \<noteq> BOARD_SIZE"
    using assms(1)
    by (simp_all add: is_terminal_def lookup_def cache_reward_lookup cached_reward_def)
  define self' where "self' = ?self0\<lparr>s_valid_moves := (s_valid_moves self)(s \<mapsto> legal),
        s_p := (s_p self)(s \<mapsto> normalise_probs masked),
        s_n := (s_n self)(s \<mapsto> 0),
        printed := (if sum_list masked = 0 then printed self @ [''warning: all moves masked'']
                    else printed self)\<rparr>"
  have "search R V (Suc depth) self s = expand V ?self0 s"
    using r0 nf assms(2) by (simp add: Let_def cache_reward_fields)
  also have "\<dots> = Inr (- v, self')"
    using assms(3,4,5) m by (simp add: expand_def Let_def cache_reward_fields self'_def)
  finally have run: "search R V (Suc depth) self s = Inr (- v, self')" .
  have fields: "s_p self' s = Some (normalise_probs masked)" "s_n self' s = Some 0"
    "s_valid_moves self' s = Some legal"
    "printed self' = (if sum_list masked = 0 then printed self @ [''warning: all moves masked'']
                      else printed self)"
    by (simp_all add: self'_def)
  have one: "sum_list (normalise_probs masked) = 1"
    using len by (intro sum_list_normalise_probs) auto
  have shape: "normalise_probs masked =
     (if sum_list masked = 0 then replicate 225 (1 / 225)
      else if sum_list masked \<noteq> 1 then map (\<lambda>p. p / sum_list masked) masked
      else masked)"
    using len by (simp add: normalise_probs_def Let_def)
  have "search R V (Suc depth) self s = Inr (- v, self') \<and>
        s_p self' s = Some (normalise_probs masked) \<and> length (normalise_probs masked) = 225 \<and>
        sum_list (normalise_probs masked) = 1 \<and>
        s_n self' s = Some 0 \<and> s_valid_moves self' s = Some legal \<and>
        (if sum_list masked = 0
         then normalise_probs masked = replicate 225 (1 / 225) \<and>
              printed self' = printed self @ [''warning: all moves masked'']
         else if sum_list masked \<noteq> 1
         then normalise_probs masked = map (\<lambda>p. p / sum_list masked) masked \<and>
              printed self' = printed self
         else normalise_probs masked = masked \<and> printed self' = printed self)"
    using run fields one len shape by (simp add: length_normalise_probs)
  then show ?thesis by blast
qed

theorem leaf_expansion_priors_witness:
  "\<exists>self'. search no_reward all_empty_cells (Suc 0) (MCTS_init (Some zero_predict)) one_stone = Inr (0, self') \<and>
     s_p self' one_stone = Some (replicate 225 (1 / 225)) \<and>
     printed self' = [''warning: all moves masked'']"
proof -
  let ?self = "MCTS_init (Some zero_predict)"
  let ?legal = "all_empty_cells one_stone (valid_actions_distance ?self)"
  let ?masked = "map (\<lambda>i. if int i \<in> set ?legal then replicate 225 (0::real) ! i else 0) [0..<225]"
  have nt: "\<not> is_terminal no_reward ?self one_stone"
    by (simp add: is_terminal_def cached_reward_def MCTS_init_def no_reward_def
        one_stone_facts BOARD_SIZE_def)
  have leaf: "s_p ?self one_stone = None" by (simp add: MCTS_init_def)
  have pv: "policy_value_obj ?self one_stone = (replicate 225 0, 0)"
    by (simp add: MCTS_init_def zero_predict_def)
  have len: "BOARD_SIZE \<le> length (replicate 225 (0::real))" by (simp add: BOARD_SIZE_def)
  have z: "sum_list ?masked = 0" by (rule sum_list_all_zero) simp
  from leaf_expansion_priors [OF nt leaf pv len refl refl, of all_empty_cells 0]
  show ?thesis using z by (auto simp: MCTS_init_def)
qed

section \<open>Backup along the selected edge\<close>

text \<open>
  C6. At an expanded, non-terminal position, once the recursive call on the child has
  returned \<open>v\<close>: when the edge has no record it is created with mean \<open>v\<close> and count 1;
  when it has mean \<open>q\<close> and count \<open>m\<close> the mean becomes \<open>(m q + v) / (m + 1)\<close> and the
  count \<open>m + 1\<close>; then the state's count grows by one and \<^verbatim>\<open>search\<close> returns \<open>- v\<close>.
  The records are read from the object as the recursive call left it.
\<close>

theorem search_backup:
  assumes "\<not> is_terminal R self s" "s_p self s \<noteq> None"
    "select_action (cache_reward R self s) s = Inr a"
    "next_state s a = Inr next_s"
    "search R V depth (cache_reward R self s) next_s = Inr (v, self1)"
    "s_n self1 s = Some n"
  shows "(sa_q self1 (s, a) = None \<longrightarrow>
            search R V (Suc depth) self s =
              Inr (- v, self1\<lparr>sa_q := (sa_q self1)((s, a) \<mapsto> v),
                              sa_n := (sa_n self1)((s, a) \<mapsto> 1),
                              s_n := (s_n self1)(s \<mapsto> n + 1)\<rparr>)) \<and>
         (\<forall>q m. sa_q self1 (s, a) = Some q \<and> sa_n self1 (s, a) = Some m \<longrightarrow>
            search R V (Suc depth) self s =
              Inr (- v, self1\<lparr>sa_q := (sa_q self1)((s, a) \<mapsto> (real m * q + v) / (real m + 1)),
                              sa_n := (sa_n self1)((s, a) \<mapsto> m + 1),
                              s_n := (s_n self1)(s \<mapsto> n + 1)\<rparr>))"
proof -
  let ?self0 = "cache_reward R self s"
  have r0: "lookup (s_r ?self0) s = Inr 0" and nf: "count_nonzero s \<noteq> BOARD_SIZE"
    using assms(1)
    by (simp_all add: is_terminal_def lookup_def cache_reward_lookup cached_reward_def)
  obtain pv where sp: "s_p ?self0 s = Some pv"
    using assms(2) by (auto simp: cache_reward_fields)
  have run: "search R V (Suc depth) self s = backup self1 s a v"
    using r0 nf sp assms(3,4,5) by (simp add: Let_def)
  show ?thesis
    unfolding run using assms(6) by (auto simp: backup_def lookup_def)
qed

lemma one_gap_facts:
  "wf_board one_gap" "count_nonzero one_gap = 224"
  "next_state one_gap 112 = Inr (replicate 15 (replicate 15 2))"
  "count_nonzero (replicate 15 (replicate 15 2)) = 225"
  "replicate 15 (replicate 15 2) \<noteq> one_gap"
  by code_simp+

lemma gap_legal: "all_empty_cells one_gap d = [112]"
  by code_simp

lemma gap_masked: "masked_probs (replicate 225 (1 / 225)) [112] = (replicate 225 0)[112 := 1 / 225]"
  unfolding masked_probs_eq
  by (rule nth_equalityI) (auto simp: nth_list_update)

lemma sum_list_unit: "i < length xs \<Longrightarrow> (\<forall>x \<in> set xs. x = (0::real)) \<Longrightarrow> sum_list (xs[i := c]) = c"
  by (induction xs arbitrary: i) (auto simp: sum_list_all_zero [where f = id, simplified] split: nat.splits)

lemma gap_sum: "sum_list ((replicate 225 (0::real))[112 := 1 / 225]) = 1 / 225"
  by (rule sum_list_unit) simp_all

lemma gap_priors:
  "normalise_probs (masked_probs (replicate 225 (1 / 225)) [112]) = (replicate 225 0)[112 := 1]"
  unfolding gap_masked normalise_probs_def Let_def gap_sum
  by (simp add: map_update)

text \<open>
  The first playout from \<open>one_gap\<close> on a fresh object, with the uniform evaluator, leaves
  \<open>gap_store\<close>: the only legal action gets the whole prior.
\<close>

lemma gap_first_search:
  "search no_reward all_empty_cells (Suc depth) (MCTS_init None) one_gap = Inr (0, gap_store)"
proof -
  let ?self0 = "cache_reward no_reward (MCTS_init None) one_gap"
  have r0: "lookup (s_r ?self0) one_gap = Inr 0"
    by (simp add: lookup_def cache_reward_lookup MCTS_init_def no_reward_def)
  have leaf: "s_p ?self0 one_gap = None" by (simp add: cache_reward_fields MCTS_init_def)
  have run: "search no_reward all_empty_cells (Suc depth) (MCTS_init None) one_gap =
      expand all_empty_cells ?self0 one_gap"
    using r0 leaf by (simp add: Let_def one_gap_facts BOARD_SIZE_def)
  have nz: "sum_list (masked_probs (replicate 225 (1 / 225)) [112]) \<noteq> 0"
    by (simp add: gap_masked gap_sum)
  show ?thesis
    unfolding run
    using nz
    by (simp add: expand_def cache_reward_def MCTS_init_def RandomPolicyValueClass_predict_def
        gap_legal gap_priors BOARD_SIZE_def no_reward_def gap_store_def)
qed

lemma gap_store_select: "select_action gap_store one_gap = Inr 112"
  by (simp add: select_action_def lookup_def gap_store_def puct_score_def py_index_def MCTS_init_def)

lemma gap_child_terminal:
  assumes "s_r self (replicate 15 (replicate 15 2)) = None"
  shows "search no_reward V (Suc 0) self (replicate 15 (replicate 15 2)) =
           Inr (0, cache_reward no_reward self (replicate 15 (replicate 15 2)))"
proof -
  have "lookup (s_r (cache_reward no_reward self (replicate 15 (replicate 15 2))))
          (replicate 15 (replicate 15 2)) = Inr 0"
    by (simp add: lookup_def cache_reward_lookup assms no_reward_def)
  then show ?thesis by (simp add: Let_def one_gap_facts BOARD_SIZE_def)
qed

lemma visited_gap_store_select: "select_action visited_gap_store one_gap = Inr 112"
  by (simp add: select_action_def lookup_def visited_gap_store_def gap_store_def puct_score_def
      py_index_def MCTS_init_def)

theorem search_backup_witness:
  "search no_reward all_empty_cells 1 (MCTS_init None) one_gap = Inr (0, gap_store) \<and>
   (\<exists>self'. search no_reward all_empty_cells 2 gap_store one_gap = Inr (0, self') \<and>
      sa_q self' (one_gap, 112) = Some 0 \<and> sa_n self' (one_gap, 112) = Some 1 \<and>
      s_n self' one_gap = Some 1) \<and>
   (\<exists>self'. search no_reward all_empty_cells 2 visited_gap_store one_gap = Inr (0, self') \<and>
      sa_q self' (one_gap, 112) = Some (1 / 4) \<and> sa_n self' (one_gap, 112) = Some 2 \<and>
      s_n self' one_gap = Some 2)"
proof (intro conjI)
  show "search no_reward all_empty_cells 1 (MCTS_init None) one_gap = Inr (0, gap_store)"
    using gap_first_search [of 0] by simp
next
  let ?child = "replicate 15 (replicate 15 (2::int))"
  let ?self0 = "cache_reward no_reward gap_store one_gap"
  let ?self1 = "cache_reward no_reward ?self0 ?child"
  have c0: "?self0 = gap_store" by (simp add: cache_reward_def gap_store_def)
  have nt: "\<not> is_terminal no_reward gap_store one_gap"
    by (simp add: is_terminal_def cached_reward_def gap_store_def one_gap_facts BOARD_SIZE_def)
  have sp: "s_p gap_store one_gap \<noteq> None" by (simp add: gap_store_def)
  have sel: "select_action ?self0 one_gap = Inr 112" by (simp add: c0 gap_store_select)
  have sr: "s_r ?self0 ?child = None"
    unfolding c0 by (simp add: gap_store_def MCTS_init_def one_gap_facts(5))
  have child: "search no_reward all_empty_cells (Suc 0) ?self0 ?child = Inr (0, ?self1)"
    using sr by (rule gap_child_terminal)
  have sn: "s_n ?self1 one_gap = Some 0" by (simp add: cache_reward_fields gap_store_def)
  have none: "sa_q ?self1 (one_gap, 112) = None"
    by (simp add: cache_reward_fields gap_store_def MCTS_init_def)
  from search_backup [OF nt sp sel one_gap_facts(3) child sn] none
  have "search no_reward all_empty_cells (Suc (Suc 0)) gap_store one_gap =
      Inr (- 0, ?self1\<lparr>sa_q := (sa_q ?self1)((one_gap, 112) \<mapsto> 0),
                         sa_n := (sa_n ?self1)((one_gap, 112) \<mapsto> 1),
                         s_n := (s_n ?self1)(one_gap \<mapsto> 0 + 1)\<rparr>)"
    by blast
  then show "\<exists>self'. search no_reward all_empty_cells 2 gap_store one_gap = Inr (0, self') \<and>
      sa_q self' (one_gap, 112) = Some 0 \<and> sa_n self' (one_gap, 112) = Some 1 \<and>
      s_n self' one_gap = Some 1"
    by (simp add: numeral_2_eq_2)
next
  let ?child = "replicate 15 (replicate 15 (2::int))"
  let ?self0 = "cache_reward no_reward visited_gap_store one_gap"
  let ?self1 = "cache_reward no_reward ?self0 ?child"
  have c0: "?self0 = visited_gap_store"
    by (simp add: cache_reward_def visited_gap_store_def gap_store_def)
  have nt: "\<not> is_terminal no_reward visited_gap_store one_gap"
    by (simp add: is_terminal_def cached_reward_def visited_gap_store_def gap_store_def
        one_gap_facts BOARD_SIZE_def)
  have sp: "s_p visited_gap_store one_gap \<noteq> None"
    by (simp add: visited_gap_store_def gap_store_def)
  have sel: "select_action ?self0 one_gap = Inr 112" by (simp add: c0 visited_gap_store_select)
  have sr: "s_r ?self0 ?child = None"
    unfolding c0 by (simp add: visited_gap_store_def gap_store_def MCTS_init_def one_gap_facts(5))
  have child: "search no_reward all_empty_cells (Suc 0) ?self0 ?child = Inr (0, ?self1)"
    using sr by (rule gap_child_terminal)
  have sn: "s_n ?self1 one_gap = Some 1"
    by (simp add: cache_reward_fields visited_gap_store_def)
  have edge: "sa_q ?self1 (one_gap, 112) = Some (1 / 2) \<and> sa_n ?self1 (one_gap, 112) = Some 1"
    by (simp add: cache_reward_fields visited_gap_store_def)
  from search_backup [OF nt sp sel one_gap_facts(3) child sn] edge
  have "search no_reward all_empty_cells (Suc (Suc 0)) visited_gap_store one_gap =
      Inr (- 0, ?self1\<lparr>sa_q := (sa_q ?self1)((one_gap, 112) \<mapsto> (real 1 * (1 / 2) + 0) / (real 1 + 1)),
                         sa_n := (sa_n ?self1)((one_gap, 112) \<mapsto> 1 + 1),
                         s_n := (s_n ?self1)(one_gap \<mapsto> 1 + 1)\<rparr>)"
    by blast
  then show "\<exists>self'. search no_reward all_empty_cells 2 visited_gap_store one_gap = Inr (0, self') \<and>
      sa_q self' (one_gap, 112) = Some (1 / 4) \<and> sa_n self' (one_gap, 112) = Some 2 \<and>
      s_n self' one_gap = Some 2"
    by (simp add: numeral_2_eq_2)
qed

section \<open>Edge means stay in [-1, 1]\<close>

lemma convex_mean_bounded:
  assumes "- 1 \<le> q" "q \<le> 1" "- 1 \<le> v" "v \<le> (1::real)"
  shows "- 1 \<le> (real m * q + v) / (real m + 1) \<and> (real m * q + v) / (real m + 1) \<le> 1"
proof -
  have "real m * q \<le> real m * 1" using assms(2) by (intro mult_left_mono) simp_all
  then have up: "real m * q + v \<le> real m + 1" using assms(4) by simp
  have "real m * (- 1) \<le> real m * q" using assms(1) by (intro mult_left_mono) simp_all
  then have lo: "- (real m + 1) \<le> real m * q + v" using assms(3) by simp
  have pos: "0 < real m + 1" by simp
  show ?thesis using up lo pos by (simp add: pos_le_divide_eq pos_divide_le_eq)
qed

lemma cache_reward_bounded:
  "reward_bounded R \<Longrightarrow> means_bounded self \<Longrightarrow> means_bounded (cache_reward R self s)"
  unfolding means_bounded_def reward_bounded_def cache_reward_def
  by (auto dest: spec [of _ s])

lemma expand_bounded:
  assumes "value_bounded (policy_value_obj self)" "means_bounded self"
    "expand V self s = Inr (v, self')"
  shows "means_bounded self' \<and> - 1 \<le> v \<and> v \<le> 1 \<and> policy_value_obj self' = policy_value_obj self"
proof -
  obtain probs v0 where pv: "policy_value_obj self s = (probs, v0)"
    by (cases "policy_value_obj self s")
  have "- 1 \<le> v0 \<and> v0 \<le> 1"
    using assms(1) pv by (auto simp: value_bounded_def dest: spec [of _ s])
  moreover have "v = - v0 \<and> sa_q self' = sa_q self \<and> s_r self' = s_r self \<and>
      policy_value_obj self' = policy_value_obj self"
    using assms(3) pv by (auto simp: expand_def Let_def split: if_splits)
  ultimately show ?thesis using assms(2) by (simp add: means_bounded_def)
qed

lemma backup_bounded:
  assumes "means_bounded self" "- 1 \<le> v" "v \<le> 1" "backup self s a v = Inr (w, self')"
  shows "means_bounded self' \<and> - 1 \<le> w \<and> w \<le> 1 \<and> policy_value_obj self' = policy_value_obj self"
proof -
  have new: "- 1 \<le> q \<and> q \<le> 1 \<Longrightarrow>
      - 1 \<le> (real m * q + v) / (real m + 1) \<and> (real m * q + v) / (real m + 1) \<le> 1" for q m
    using assms(2,3) by (intro convex_mean_bounded) simp_all
  show ?thesis
    using assms new
    by (auto simp: backup_def lookup_def means_bounded_def
        split: if_splits option.splits sum.splits)
qed

lemma search_bounded:
  assumes "value_bounded (policy_value_obj self)" "reward_bounded R" "means_bounded self"
    "search R V depth self s = Inr (v, self')"
  shows "means_bounded self' \<and> - 1 \<le> v \<and> v \<le> 1 \<and> policy_value_obj self' = policy_value_obj self"
  using assms
proof (induction depth arbitrary: self s v self')
  case 0
  then show ?case by simp
next
  case (Suc depth)
  let ?self0 = "cache_reward R self s"
  let ?r = "cached_reward R self s"
  have b0: "means_bounded ?self0" using Suc.prems(2,3) by (rule cache_reward_bounded)
  have p0: "policy_value_obj ?self0 = policy_value_obj self" by (simp add: cache_reward_fields)
  have sr0: "s_r ?self0 s = Some ?r" by (simp add: cache_reward_lookup cached_reward_def)
  have r0: "lookup (s_r ?self0) s = Inr ?r" by (simp add: lookup_def sr0)
  have rb: "- 1 \<le> ?r \<and> ?r \<le> 1" using b0 sr0 by (auto simp: means_bounded_def)
  show ?case
  proof (cases "?r \<noteq> 0 \<or> count_nonzero s = BOARD_SIZE")
    case True
    then have "v = - real_of_int ?r" "self' = ?self0"
      using Suc.prems(4) r0 by (simp_all add: Let_def)
    then show ?thesis using b0 p0 rb by simp
  next
    case nonterm: False
    show ?thesis
    proof (cases "s_p ?self0 s")
      case None
      then have "expand V ?self0 s = Inr (v, self')"
        using Suc.prems(4) r0 nonterm by (simp add: Let_def)
      from expand_bounded [OF _ b0 this] Suc.prems(1) p0 show ?thesis by simp
    next
      case (Some pv)
      from Suc.prems(4) r0 nonterm Some obtain a next_s v1 self1 where
        run1: "search R V depth ?self0 next_s = Inr (v1, self1)"
        and bk: "backup self1 s a v1 = Inr (v, self')"
        by (auto simp: Let_def split: sum.splits)
      from Suc.IH [OF _ Suc.prems(2) b0 run1] Suc.prems(1) p0
      have b1: "means_bounded self1" and v1: "- 1 \<le> v1" "v1 \<le> 1"
        and p1: "policy_value_obj self1 = policy_value_obj self" by simp_all
      from backup_bounded [OF b1 v1 bk] p1 show ?thesis by simp
    qed
  qed
qed

lemma playouts_searched:
  "playouts R V depth k self s = Inr self' \<Longrightarrow> searched R V self0 self \<Longrightarrow>
   searched R V self0 self'"
proof (induction k arbitrary: self)
  case 0
  then show ?case by simp
next
  case (Suc k)
  from Suc.prems(1) obtain v self1 where run: "search R V depth self s = Inr (v, self1)"
    and rest: "playouts R V depth k self1 s = Inr self'"
    by (auto split: sum.splits)
  have "searched R V self0 self1" using Suc.prems(2) run by (rule searched.step)
  with rest show ?case by (rule Suc.IH)
qed

lemma MCTS_init_playout_count: "MCTS_init obj\<lparr>playout_count := 400\<rparr> = MCTS_init obj"
  by (simp add: MCTS_init_def)

text \<open>
  C7. With an evaluator whose values lie in \<open>[-1, 1]\<close> and rewards in \<open>{-1, 0, 1}\<close>, every
  edge mean of an object that a sequence of returning calls of \<^verbatim>\<open>search\<close> builds from
  an object with empty tables lies in \<open>[-1, 1]\<close>.
\<close>

theorem mean_value_bounded:
  assumes "value_bounded (policy_value_obj self0)" "reward_bounded R"
    "sa_q self0 = Map.empty" "s_r self0 = Map.empty"
    "searched R V self0 self" "sa_q self k = Some q"
  shows "- 1 \<le> q \<and> q \<le> 1"
proof -
  have "means_bounded self \<and> policy_value_obj self = policy_value_obj self0"
    using assms(5)
  proof (induction rule: searched.induct)
    case start
    then show ?case using assms(3,4) by (simp add: means_bounded_def)
  next
    case (step self depth s v self')
    from search_bounded [OF _ assms(2) _ step.hyps(2)] step.IH assms(1)
    show ?case by simp
  qed
  then show ?thesis using assms(6) unfolding means_bounded_def by blast
qed

theorem mean_value_bounded_witness:
  "\<exists>self a q. searched no_reward all_empty_cells (MCTS_init None) self \<and>
     sa_q self (one_stone, a) = Some q \<and> - 1 \<le> q \<and> q \<le> 1"
proof -
  have p: "predict_ok (policy_value_obj (MCTS_init None\<lparr>playout_count := 400\<rparr>))"
    by (simp add: MCTS_init_def predict_ok_random)
  have "\<exists>self'. playouts no_reward all_empty_cells 226 (Suc (Suc 0))
      (MCTS_init None\<lparr>playout_count := 400\<rparr>) one_stone = Inr self' \<and>
      store_ok self' \<and> sum_list (root_counts self' one_stone) = Suc 0"
    using p by (intro playouts_fresh oracle_ok_all_empty_cells) (simp_all add: one_stone_facts no_reward_def)
  then obtain self where run: "playouts no_reward all_empty_cells 226 (Suc (Suc 0)) (MCTS_init None) one_stone = Inr self"
    and ok: "store_ok self" and cnt: "sum_list (root_counts self one_stone) = Suc 0"
    by (auto simp: MCTS_init_playout_count simp del: playouts.simps)
  have reach: "searched no_reward all_empty_cells (MCTS_init None) self"
    using run searched.start by (rule playouts_searched)
  have "\<exists>x \<in> set (root_counts self one_stone). x \<noteq> 0"
    using cnt by (metis sum_list_eq_0_iff nat.distinct(1))
  then obtain i where "sa_n self (one_stone, int i) \<noteq> None"
    by (auto simp: root_counts_def split: option.splits)
  then have "sa_q self (one_stone, int i) \<noteq> None"
    by (simp add: store_ok_None [OF ok])
  then obtain q where q: "sa_q self (one_stone, int i) = Some q" by blast
  have vb: "value_bounded (policy_value_obj (MCTS_init None))"
    by (simp add: value_bounded_def MCTS_init_def RandomPolicyValueClass_predict_def)
  have rb: "reward_bounded no_reward" by (simp add: reward_bounded_def no_reward_def)
  have fresh: "sa_q (MCTS_init None) = Map.empty" "s_r (MCTS_init None) = Map.empty"
    by (simp_all add: MCTS_init_def)
  from mean_value_bounded [OF vb rb fresh reach q] reach q show ?thesis by blast
qed

section \<open>The recursion budget\<close>

text \<open>
  The embedding is a function, so equal arguments give equal results by construction:
  that the program consults no source of randomness is assumed by the model, not proved
  in it. The budget is the one argument with no counterpart among the program's inputs;
  a larger one never changes a result that was returned.
\<close>

lemma search_Suc: "search R V (Suc depth) self s = search_body R V (search R V depth) self s"
  by (simp add: search_body_def)

lemma search_body_mono:
  assumes "\<And>st b r. rec st b = Inr r \<Longrightarrow> rec' st b = Inr r"
    "search_body R V rec self s = Inr r"
  shows "search_body R V rec' self s = Inr r"
  using assms(2) unfolding search_body_def Let_def
  by (auto split: sum.splits if_splits prod.splits dest!: assms(1))

lemma search_depth_Suc: "search R V depth self s = Inr r \<Longrightarrow> search R V (Suc depth) self s = Inr r"
proof (induction depth arbitrary: self s r)
  case 0
  then show ?case by simp
next
  case (Suc depth)
  from Suc.prems have "search_body R V (search R V depth) self s = Inr r"
    by (simp only: search_Suc)
  then have "search_body R V (search R V (Suc depth)) self s = Inr r"
    by (rule search_body_mono [rotated]) (rule Suc.IH)
  then show ?case by (simp only: search_Suc)
qed

lemma search_depth_mono:
  assumes "search R V depth self s = Inr r" "depth \<le> depth'"
  shows "search R V depth' self s = Inr r"
  using assms(2,1) by (induction rule: dec_induct) (simp_all add: search_depth_Suc del: search.simps)

lemma playouts_depth_mono:
  "playouts R V depth k self s = Inr r \<Longrightarrow> depth \<le> depth' \<Longrightarrow>
   playouts R V depth' k self s = Inr r"
proof (induction k arbitrary: self)
  case 0
  then show ?case by simp
next
  case (Suc k)
  from Suc.prems(1) obtain v self1 where run: "search R V depth self s = Inr (v, self1)"
    and rest: "playouts R V depth k self1 s = Inr r"
    by (auto split: sum.splits)
  have "search R V depth' self s = Inr (v, self1)"
    using run Suc.prems(2) by (rule search_depth_mono)
  moreover have "playouts R V depth' k self1 s = Inr r"
    using rest Suc.prems(2) by (rule Suc.IH)
  ultimately show ?case by simp
qed

lemma get_probs_depth_mono:
  assumes "get_probs R V depth self s = Inr r" "depth \<le> depth'"
  shows "get_probs R V depth' self s = Inr r"
proof -
  from assms(1) obtain self1 where run: "playouts R V depth (playout_count self) self s = Inr self1"
    by (auto simp: get_probs_def split: sum.splits)
  have "playouts R V depth' (playout_count self) self s = Inr self1"
    using run assms(2) by (rule playouts_depth_mono)
  with run assms(1) show ?thesis by (simp add: get_probs_def)
qed

section \<open>The selected action\<close>

lemma tables_ok_init: "tables_ok (MCTS_init obj)"
  by (simp add: tables_ok_def MCTS_init_def)

lemma cache_reward_tables_ok: "tables_ok self \<Longrightarrow> tables_ok (cache_reward R self s)"
  unfolding tables_ok_def cache_reward_fields .

lemma expand_tables_ok:
  assumes "tables_ok self" "expand V self s = Inr (v, self')"
  shows "tables_ok self'"
proof -
  obtain probs v0 where pv: "policy_value_obj self s = (probs, v0)"
    by (cases "policy_value_obj self s")
  from assms(2) pv have "self' = self\<lparr>s_valid_moves := (s_valid_moves self)(s \<mapsto> V s (valid_actions_distance self)),
      s_p := (s_p self)(s \<mapsto> normalise_probs (masked_probs probs (V s (valid_actions_distance self)))),
      s_n := (s_n self)(s \<mapsto> 0),
      printed := (if sum_list (masked_probs probs (V s (valid_actions_distance self))) = 0
                  then printed self @ [''warning: all moves masked''] else printed self)\<rparr>"
    by (auto simp: expand_def Let_def split: if_splits)
  then show ?thesis
    using assms(1) by (auto simp: tables_ok_def length_normalise_probs length_masked_probs)
qed

lemma backup_tables_ok:
  assumes "tables_ok self" "backup self s a v = Inr (w, self')"
  shows "tables_ok self'"
proof -
  from assms(2) obtain n where n: "s_n self s = Some n"
    by (auto simp: backup_def lookup_def split: if_splits option.splits sum.splits)
  have d: "dom (sa_n self) = dom (sa_q self)" using assms(1) by (simp add: tables_ok_def)
  have "self' = backed_up self s a v"
    using assms(2) backup_eq [OF d n, of a v] by simp
  moreover have "s \<in> dom (s_n self)" using n by (simp add: domI)
  ultimately show ?thesis
    using assms(1) by (auto simp: tables_ok_def backed_up_def)
qed

lemma search_tables_ok:
  "tables_ok self \<Longrightarrow> search R V depth self s = Inr (v, self') \<Longrightarrow> tables_ok self'"
proof (induction depth arbitrary: self s v self')
  case 0
  then show ?case by simp
next
  case (Suc depth)
  let ?self0 = "cache_reward R self s"
  have t0: "tables_ok ?self0" using Suc.prems(1) by (rule cache_reward_tables_ok)
  from Suc.prems(2) have body: "search_body R V (search R V depth) self s = Inr (v, self')"
    by (simp only: search_Suc)
  then consider (terminal) "self' = ?self0"
    | (leaf) "expand V ?self0 s = Inr (v, self')"
    | (internal) a next_s v1 self1 where "search R V depth ?self0 next_s = Inr (v1, self1)"
        "backup self1 s a v1 = Inr (v, self')"
    unfolding search_body_def Let_def
    by (auto split: sum.splits if_splits)
  then show ?case
  proof cases
    case terminal
    then show ?thesis using t0 by simp
  next
    case leaf
    with t0 show ?thesis by (rule expand_tables_ok)
  next
    case internal
    from Suc.IH [OF t0 internal(1)] internal(2) show ?thesis by (rule backup_tables_ok)
  qed
qed

lemma searched_tables_ok: "searched R V (MCTS_init obj) self \<Longrightarrow> tables_ok self"
  by (induction rule: searched.induct) (auto intro: tables_ok_init search_tables_ok)

text \<open>
  C5. In every object that returning calls of \<^verbatim>\<open>search\<close> build from a fresh one, at an
  expanded position whose stored legal actions are a non-empty list of indices in
  \<open>[0, 225)\<close>: every legal action gets the score of the specification, with
  \<open>c_puct = 5\<close>, and the action selected is the first one, in the stored order, whose
  score is greatest.
\<close>

theorem puct_selection:
  assumes "searched R V (MCTS_init obj) self" "s_valid_moves self s = Some vs"
    "vs \<noteq> []" "\<forall>a \<in> set vs. 0 \<le> a \<and> a < 225"
  shows "(\<forall>a \<in> set vs. puct_score self s a = Inr (spec_score self s a)) \<and>
         (\<exists>i<length vs. select_action self s = Inr (vs ! i) \<and>
            (\<forall>j<length vs. spec_score self s (vs ! j) \<le> spec_score self s (vs ! i)) \<and>
            (\<forall>j<i. spec_score self s (vs ! j) < spec_score self s (vs ! i)))"
proof -
  have t: "tables_ok self" using assms(1) by (rule searched_tables_ok)
  then have d: "dom (sa_n self) = dom (sa_q self)" and c: "c_puct self = 5"
    by (simp_all add: tables_ok_def)
  have "s \<in> dom (s_valid_moves self)" using assms(2) by (simp add: domI)
  then have "s \<in> dom (s_p self)" "s \<in> dom (s_n self)" using t by (simp_all add: tables_ok_def)
  then obtain pv n where pv: "s_p self s = Some pv" and n: "s_n self s = Some n" by blast
  have len: "length pv = 225" using t pv by (simp add: tables_ok_def)
  have sc: "\<forall>a \<in> set vs. puct_score self s a = Inr (spec_score self s a)"
    using assms(4) len by (auto intro!: puct_score_spec [OF pv n d _ _ c])
  from select_loop_argmax [OF sc assms(3), of "- 1"] obtain i where i: "i < length vs"
    and run: "select_loop self s vs (None, - 1) = Inr (Some (spec_score self s (vs ! i)), vs ! i)"
    and mx: "\<forall>j<length vs. spec_score self s (vs ! j) \<le> spec_score self s (vs ! i)"
    and first: "\<forall>j<i. spec_score self s (vs ! j) < spec_score self s (vs ! i)"
    by blast
  have "select_action self s = Inr (vs ! i)"
    using assms(2) run by (simp add: select_action_def lookup_def)
  with sc i mx first show ?thesis by blast
qed

theorem puct_selection_witness:
  "\<exists>self vs i. searched no_reward all_empty_cells (MCTS_init None) self \<and>
     s_valid_moves self one_stone = Some vs \<and> i < length vs \<and>
     select_action self one_stone = Inr (vs ! i) \<and>
     puct_score self one_stone (vs ! i) = Inr (spec_score self one_stone (vs ! i))"
proof -
  have ok: "store_ok (MCTS_init None)"
    using store_ok_init [where obj = None and N = 400] by (simp add: MCTS_init_playout_count)
  have p: "predict_ok (policy_value_obj (MCTS_init None))"
    by (simp add: MCTS_init_def predict_ok_random)
  have o: "oracle_ok all_empty_cells (valid_actions_distance (MCTS_init None)) (count_nonzero one_stone)"
    by (rule oracle_ok_all_empty_cells)
  have nt: "\<not> is_terminal no_reward (MCTS_init None) one_stone"
    by (simp add: is_terminal_def cached_reward_def MCTS_init_def no_reward_def
        one_stone_facts BOARD_SIZE_def)
  from search_total [OF ok p o one_stone_facts(1) order_refl, of 226 no_reward] nt
  obtain v self where run: "search no_reward all_empty_cells 226 (MCTS_init None) one_stone = Inr (v, self)"
    and ok': "store_ok self" and sp: "s_p self one_stone \<noteq> None"
    by (auto simp: one_stone_facts)
  have reach: "searched no_reward all_empty_cells (MCTS_init None) self"
    using searched.start run by (rule searched.step)
  have "s_valid_moves self one_stone \<noteq> None" using sp by (simp add: store_ok_None [OF ok'])
  then obtain vs where vs: "s_valid_moves self one_stone = Some vs" by blast
  have ne: "vs \<noteq> []" and rng: "\<forall>a \<in> set vs. 0 \<le> a \<and> a < 225"
    using ok' vs by (auto simp: store_ok_def)
  from puct_selection [OF reach vs ne rng] obtain i where "i < length vs"
    "select_action self one_stone = Inr (vs ! i)"
    "puct_score self one_stone (vs ! i) = Inr (spec_score self one_stone (vs ! i))"
    by (metis nth_mem)
  with reach vs show ?thesis by blast
qed

section \<open>The first move\<close>

text \<open>
  C8. On a board whose cells are all zero, \<^verbatim>\<open>choose_action\<close> returns (7, 7) and leaves
  the player object as it was, for either player number, for every evaluator, reward,
  oracle and playout count, and for every recursion budget, the budget 0 included, under
  which any call of \<^verbatim>\<open>search\<close> fails: no playout is run.
\<close>

theorem choose_action_empty_board:
  assumes "\<forall>row \<in> set state. \<forall>n \<in> set row. n = 0"
  shows "choose_action R V depth self state = Inr ((7, 7), self)"
proof -
  have z: "count_nonzero state = 0"
    using assms by (auto simp: count_nonzero_def filter_empty_conv)
  have "convert_to_p1_perspective state = state"
    using assms by (simp add: convert_to_p1_perspective_def flip_fixed_iff)
  then show ?thesis using z by (simp add: choose_action_def)
qed

theorem choose_action_empty_board_witness:
  "choose_action no_reward all_empty_cells 0 (MCTSPlayer_init 1 None) empty_board =
     Inr ((7, 7), MCTSPlayer_init 1 None) \<and>
   choose_action no_reward all_empty_cells 0 (MCTSPlayer_init 2 None) empty_board =
     Inr ((7, 7), MCTSPlayer_init 2 None)"
proof -
  have z: "\<forall>row \<in> set empty_board. \<forall>n \<in> set row. n = 0"
    by (simp add: empty_board_def)
  show ?thesis
    using choose_action_empty_board [OF z, of no_reward all_empty_cells 0 "MCTSPlayer_init 1 None"]
      choose_action_empty_board [OF z, of no_reward all_empty_cells 0 "MCTSPlayer_init 2 None"]
    by (rule conjI)
qed

section \<open>Perspective conversion\<close>

text \<open>
  C10. For every board whose cells are 0, 1 or 2 (the 15 x 15 boards among them),
  converting the perspective twice gives the board back, cell for cell.
\<close>

theorem convert_perspective_involution:
  "cells_012 s \<Longrightarrow> convert_perspective (convert_perspective s) = s"
  unfolding cells_012_def convert_perspective_def
  by (fastforce simp: list_all_iff intro!: map_idI)

theorem convert_perspective_involution_witness:
  "cells_012 one_stone \<and> convert_perspective (convert_perspective one_stone) = one_stone"
proof -
  have h: "cells_012 one_stone" by code_simp
  show ?thesis using h convert_perspective_involution [OF h] by simp
qed

text \<open>
  C2, as the claim states it, fails: the conversion is not the identity on a board of
  player 1's perspective that holds a stone. The centre stone of \<open>one_stone\<close> changes
  from 1 to 2 under both functions.
\<close>

theorem convert_perspective_not_identity:
  "wf_board one_stone \<and> cells_012 one_stone \<and>
   convert_perspective one_stone \<noteq> one_stone \<and>
   convert_to_p1_perspective one_stone \<noteq> one_stone"
  by code_simp

text \<open>
  C2, amended. On a board whose cells are 0, 1 or 2 the conversion keeps every empty cell
  and exchanges the values 1 and 2 in the others; \<^verbatim>\<open>convert_to_p1_perspective\<close> does
  the same. It leaves the board unchanged exactly when the board has no stone.
\<close>

theorem convert_perspective_swaps:
  assumes "cells_012 s"
  shows "convert_perspective s = map (map (\<lambda>n. if n = 0 then 0 else 3 - n)) s \<and>
     convert_to_p1_perspective s = convert_perspective s \<and>
     (convert_perspective s = s \<longleftrightarrow> count_nonzero s = 0)"
proof -
  have a: "convert_perspective s = map (map (\<lambda>n. if n = 0 then 0 else 3 - n)) s"
    using assms unfolding cells_012_def convert_perspective_def
    by (auto simp: list_all_iff)
  have b: "convert_to_p1_perspective s = convert_perspective s"
    by (simp add: convert_perspective_def convert_to_p1_perspective_def)
  have "count_nonzero s = 0 \<longleftrightarrow> (\<forall>row \<in> set s. \<forall>n \<in> set row. n = 0)"
    by (auto simp: count_nonzero_def filter_empty_conv)
  then have c: "convert_perspective s = s \<longleftrightarrow> count_nonzero s = 0"
    by (simp add: convert_perspective_def flip_fixed_iff)
  show ?thesis using a b c by simp
qed

theorem convert_perspective_swaps_witness:
  "cells_012 one_stone \<and>
   convert_perspective one_stone = map (map (\<lambda>n. if n = 0 then 0 else 3 - n)) one_stone \<and>
   convert_to_p1_perspective one_stone = convert_perspective one_stone \<and>
   (convert_perspective one_stone = one_stone) = (count_nonzero one_stone = 0)"
proof -
  have h: "cells_012 one_stone" by code_simp
  show ?thesis by (rule conjI [OF h convert_perspective_swaps [OF h]])
qed

end
